theory Spec2Isabelle
  imports Main
begin

section \<open>Strings\<close>

text \<open>
  A JavaScript string is a sequence of UTF-16 code units. The model uses \<^typ>\<open>string\<close>:
  a \<^typ>\<open>char\<close> stands for a code unit below 256, which covers every character the
  program itself names (the pattern, the prompt, the messages).
\<close>

definition is_digit :: "char \<Rightarrow> bool" where
  \<comment> \<open>the class \<open>\d\<close> of a pattern without the unicode flag: \<open>0\<close> to \<open>9\<close>\<close>
  "is_digit c = (c \<in> set ''0123456789'')"

definition is_space :: "char \<Rightarrow> bool" where
  \<comment> \<open>the white space and line terminators that \<open>String.prototype.trim\<close> strips, as far
      as they lie below 256: TAB, LF, VT, FF, CR, SP and NBSP\<close>
  "is_space c = (c \<in> set [CHR 0x09, CHR 0x0A, CHR 0x0B, CHR 0x0C, CHR 0x0D, CHR 0x20, CHR 0xA0])"

definition trim :: "string \<Rightarrow> string" where
  "trim s = rev (dropWhile is_space (rev (dropWhile is_space s)))"

section \<open>Regular expressions with backtracking\<close>

text \<open>
  The constructs that the pattern of \<open>App.tsx\<close> uses. A non-capturing group \<open>(?:a)\<close> is
  \<open>a\<close> itself; \<open>a+\<close> is \<open>a\<close> followed by \<open>a*\<close>; a string of literal characters is their
  sequence. The pattern has one capturing group, so the matcher carries one capture.
\<close>

datatype regex =
    Eps
  | Chr char
  | Digit
  | Seq regex regex
  | Alt regex regex
  | Opt regex
  | Star regex
  | Group regex

abbreviation Plus :: "regex \<Rightarrow> regex" where
  "Plus a \<equiv> Seq a (Star a)"

fun lit :: "string \<Rightarrow> regex" where
  "lit [] = Eps"
| "lit (c # cs) = Seq (Chr c) (lit cs)"

text \<open>
  A matcher state is the input still to be read and the text captured by group 1, if the
  group has matched. \<open>rmatch r st\<close> lists the states in which \<open>r\<close> can end when started in
  \<open>st\<close>, in the order in which a backtracking matcher tries them: the left alternative
  before the right one, one more repetition before stopping (greedy), the optional part
  taken before it is skipped. A repetition that reads nothing is not continued.
\<close>

type_synonym mstate = "string \<times> string option"

fun rmatch :: "regex \<Rightarrow> mstate \<Rightarrow> mstate list" where
  "rmatch Eps st = [st]"
| "rmatch (Chr c) (s, g) =
     (case s of [] \<Rightarrow> [] | x # xs \<Rightarrow> if x = c then [(xs, g)] else [])"
| "rmatch Digit (s, g) =
     (case s of [] \<Rightarrow> [] | x # xs \<Rightarrow> if is_digit x then [(xs, g)] else [])"
| "rmatch (Seq a b) st = concat (map (rmatch b) (rmatch a st))"
| "rmatch (Alt a b) st = rmatch a st @ rmatch b st"
| "rmatch (Opt a) st = rmatch a st @ [st]"
| "rmatch (Star a) st =
     concat (map (\<lambda>st'. if length (fst st') < length (fst st) then rmatch (Star a) st' else [])
                 (rmatch a st)) @ [st]"
| "rmatch (Group a) (s, g) =
     map (\<lambda>(s', _). (s', Some (take (length s - length s') s))) (rmatch a (s, g))"

text \<open>
  \<open>regex_exec r s\<close> is \<open>s.match(r)\<close> for a pattern without flags: the matcher is tried at
  index 0, 1, ... up to the length of \<open>s\<close>, and the first index with a match decides.
  \<open>None\<close> is \<open>null\<close>; \<open>Some (m, g)\<close> is the match array, \<open>m\<close> the element 0 (the matched
  text) and \<open>g\<close> the element 1 (the capture, \<open>None\<close> for \<open>undefined\<close>).
\<close>

fun regex_exec :: "regex \<Rightarrow> string \<Rightarrow> (string \<times> string option) option" where
  "regex_exec r s =
     (case rmatch r (s, None) of
        (s', g) # _ \<Rightarrow> Some (take (length s - length s') s, g)
      | [] \<Rightarrow> (case s of [] \<Rightarrow> None | _ # t \<Rightarrow> regex_exec r t))"

definition regex_test :: "regex \<Rightarrow> string \<Rightarrow> bool" where
  \<comment> \<open>\<open>r.test(s)\<close>\<close>
  "regex_test r s = (regex_exec r s \<noteq> None)"

section \<open>The identifier extractor of \<open>App.tsx\<close>\<close>

definition arxivRegex :: regex where
  \<comment> \<open>\<open>/(?:https?:\/\/)?(?:www\.)?arxiv\.org\/(?:abs|pdf)\/(\d+(?:\.\d+)?(?:v\d+)?)/\<close>\<close>
  "arxivRegex =
     Seq (Opt (Seq (lit ''http'') (Seq (Opt (Chr CHR ''s'')) (lit ''://''))))
    (Seq (Opt (lit ''www.''))
    (Seq (lit ''arxiv.org/'')
    (Seq (Alt (lit ''abs'') (lit ''pdf''))
    (Seq (Chr CHR ''/'')
         (Group (Seq (Plus Digit)
                (Seq (Opt (Seq (Chr CHR ''.'') (Plus Digit)))
                     (Opt (Seq (Chr CHR ''v'') (Plus Digit))))))))))"

definition validateArxivUrl :: "string \<Rightarrow> bool" where
  "validateArxivUrl u = regex_test arxivRegex u"

definition extractArxivId :: "string \<Rightarrow> string" where
  \<comment> \<open>\<open>match ? match[1] : ''\<close>. The last case is an \<open>undefined\<close> element 1, which the
      pattern excludes (lemma \<open>arxiv_exec_group\<close>): its group is not under an option.\<close>
  "extractArxivId u =
     (case regex_exec arxivRegex u of
        None \<Rightarrow> ''''
      | Some (m, Some ident) \<Rightarrow> ident
      | Some (m, None) \<Rightarrow> '''')"

section \<open>The data of \<open>App.tsx\<close>\<close>

record PaperMetadata =
  title :: string
  authors :: "string list"
  abstract :: string
  url :: string
  published_date :: string

text \<open>
  \<open>SummaryResponse\<close> with its field \<open>data\<close>; an optional field is an \<^typ>\<open>'a option\<close>,
  \<open>None\<close> when the field is absent. The model follows the declared interfaces: the value
  that \<open>parseLLMJson<SummaryResponse>\<close> returns is a \<open>SummaryResponse\<close>.
\<close>

record SummaryData =
  metadata :: "PaperMetadata option"
  summary :: "string option"
  error :: "string option"

record SummaryResponse =
  success :: bool
  data :: SummaryData

text \<open>
  The four state variables of the component \<open>App\<close>. \<open>paperData\<close> is \<open>null\<close> or an object
  with the fields \<open>metadata\<close> and \<open>summary\<close>, here a pair.
\<close>

record app_state =
  url :: string
  loading :: bool
  error :: string
  paperData :: "(PaperMetadata \<times> string) option"

definition initial_state :: app_state where
  "initial_state = \<lparr>url = '''', loading = False, error = '''', paperData = None\<rparr>"

text \<open>Truthiness of an optional object and of an optional string.\<close>

definition truthy_obj :: "'a option \<Rightarrow> bool" where
  "truthy_obj x = (x \<noteq> None)"

definition truthy_str :: "string option \<Rightarrow> bool" where
  "truthy_str x = (case x of None \<Rightarrow> False | Some s \<Rightarrow> s \<noteq> '''')"

definition js_or :: "string option \<Rightarrow> string \<Rightarrow> string" where
  \<comment> \<open>\<open>x || d\<close> for an optional string \<open>x\<close>: \<open>x\<close> if it is truthy, else \<open>d\<close>\<close>
  "js_or x d = (case x of None \<Rightarrow> d | Some s \<Rightarrow> if s \<noteq> '''' then s else d)"

section \<open>The collaborators\<close>

text \<open>
  \<open>callAIAgent\<close> is the remote call: it either rejects (raises) or resolves to a response
  object whose field \<open>response\<close> is the raw text. The model takes it as a parameter.
\<close>

datatype agent_result = Rejects | Resolves string

type_synonym agent = "string \<Rightarrow> string \<Rightarrow> agent_result"

type_synonym parser = "string \<Rightarrow> SummaryResponse option"

text \<open>
  Modelled from the spec: \<open>parseLLMJson\<close> of \<open>utils/jsonParser\<close> is not among the sources.
  The specification gives it the raw text and a fallback value; it returns the best-effort
  parsed value of the expected shape, or the fallback if parsing is impossible, and never
  raises. The best-effort parse is the parameter \<open>parse\<close>, \<open>None\<close> where parsing is
  impossible.
\<close>

definition parseLLMJson :: "parser \<Rightarrow> string \<Rightarrow> SummaryResponse \<Rightarrow> SummaryResponse" where
  "parseLLMJson parse raw fallback = (case parse raw of Some v \<Rightarrow> v | None \<Rightarrow> fallback)"

definition agent_id :: string where
  "agent_id = ''68f24d4e811f17edf77d460e''"

definition parse_fallback :: SummaryResponse where
  \<comment> \<open>\<open>{ success: false, data: { error: 'Failed to parse response' } }\<close>\<close>
  "parse_fallback =
     \<lparr>success = False,
      data = \<lparr>metadata = None, summary = None, error = Some ''Failed to parse response''\<rparr>\<rparr>"

section \<open>\<open>handleSubmit\<close>\<close>

datatype effect = CallAgent string string | ToastSuccess string

text \<open>
  What one run of \<open>handleSubmit\<close> does: the state in which it awaits the remote call
  (\<open>None\<close> if it returns before the call), the state when it has finished, and its calls
  and notifications in order.
\<close>

record run =
  pending :: "app_state option"
  settled :: app_state
  effects :: "effect list"

definition classify :: "SummaryResponse \<Rightarrow> app_state \<Rightarrow> app_state \<times> effect list" where
  \<comment> \<open>The \<open>if\<close> on the parsed result (lines 74 to 82). In the first branch the condition
      has made both fields present, so the last case of the inner \<open>case\<close> is never taken.\<close>
  "classify result st =
     (if success result \<and> truthy_obj (metadata (data result)) \<and> truthy_str (summary (data result))
      then (case (metadata (data result), summary (data result)) of
              (Some m, Some s) \<Rightarrow>
                (st\<lparr>paperData := Some (m, s)\<rparr>, [ToastSuccess ''Paper summarized successfully''])
            | _ \<Rightarrow> (st, []))
      else (st\<lparr>error := js_or (SummaryData.error (data result)) ''Failed to summarize paper''\<rparr>,
            []))"

definition handleSubmit :: "parser \<Rightarrow> agent \<Rightarrow> app_state \<Rightarrow> run" where
  "handleSubmit parse callAIAgent st =
     (let st0 = st\<lparr>error := '''', paperData := None\<rparr> in
      if trim (url st) = '''' then
        \<lparr>pending = None, settled = st0\<lparr>error := ''Please enter an arXiv URL''\<rparr>, effects = []\<rparr>
      else if \<not> validateArxivUrl (url st) then
        \<lparr>pending = None,
         settled = st0\<lparr>error :=
           ''Please enter a valid arXiv URL (e.g., https://arxiv.org/abs/1234.56789)''\<rparr>,
         effects = []\<rparr>
      else
        let st1 = st0\<lparr>loading := True\<rparr>;
            arxivId = extractArxivId (url st);
            message = ''Summarize this arXiv paper: '' @ arxivId
        in (case callAIAgent message agent_id of
              Resolves raw \<Rightarrow>
                (let result = parseLLMJson parse raw parse_fallback;
                     (st2, fx) = classify result st1
                 in \<lparr>pending = Some st1, settled = st2\<lparr>loading := False\<rparr>,
                     effects = CallAgent message agent_id # fx\<rparr>)
            | Rejects \<Rightarrow>
                \<lparr>pending = Some st1,
                 settled = st1\<lparr>error :=
                   ''An error occurred while processing the paper. Please try again.'',
                   loading := False\<rparr>,
                 effects = [CallAgent message agent_id]\<rparr>))"

text \<open>The setter of the input field, \<open>setUrl\<close>.\<close>

definition setUrl :: "string \<Rightarrow> app_state \<Rightarrow> app_state" where
  "setUrl u st = st\<lparr>url := u\<rparr>"

section \<open>The request state of the specification\<close>

text \<open>
  The specification speaks of one \<open>RequestState\<close>. It is read off the state variables
  the way the view renders them: the spinner while \<open>loading\<close>, the result card when
  \<open>paperData\<close> is set, the alert when \<open>error\<close> is a non-empty string.
\<close>

datatype RequestState = Idle | Loading | Failed string | Succeeded PaperMetadata string

definition request_state :: "app_state \<Rightarrow> RequestState" where
  "request_state st =
     (if loading st then Loading
      else case paperData st of
             Some (m, s) \<Rightarrow> Succeeded m s
           | None \<Rightarrow> if error st \<noteq> '''' then Failed (error st) else Idle)"

definition network_calls :: "run \<Rightarrow> (string \<times> string) list" where
  "network_calls r = concat (map (\<lambda>e. case e of CallAgent p a \<Rightarrow> [(p, a)] | _ \<Rightarrow> []) (effects r))"

section \<open>The specification's words\<close>

text \<open>
  The specification describes the accepted input as the shape
  \<open>[scheme://][www.]host/(abs|pdf)/<id>\<close>, found anywhere in the string, where \<open><id>\<close>
  is digits, optionally a dot and digits, optionally \<open>v\<close> and digits. These definitions
  follow that description, not the pattern; the theorems below compare them with
  \<open>validateArxivUrl\<close> and \<open>extractArxivId\<close>. The host is \<open>arxiv.org\<close> and the scheme is
  \<open>http\<close> or \<open>https\<close>; since the shape may begin anywhere in the string and both the scheme
  and \<open>www.\<close> are optional, a string contains the shape exactly when it contains
  \<open>arxiv.org/abs/\<close> or \<open>arxiv.org/pdf/\<close> followed by an identifier.

  \<open>is_digits\<close> is a non-empty run of digits; \<open>opt_part c\<close> is an optional part, either
  nothing or the character \<open>c\<close> followed by digits. An identifier splits into digits, an
  optional part with a dot and an optional part with \<open>v\<close>. A string has the shape when it
  is one of the prefixes followed by an identifier; the shape is at the beginning of a
  string when some prefix of the string has it, and a string matches when the shape is at
  the beginning of one of its suffixes.
\<close>

definition is_digits :: "string \<Rightarrow> bool" where
  "is_digits w = (w \<noteq> [] \<and> list_all is_digit w)"

definition opt_part :: "char \<Rightarrow> string \<Rightarrow> bool" where
  "opt_part c w = (case w of [] \<Rightarrow> True | x # d \<Rightarrow> x = c \<and> is_digits d)"

definition spec_is_identifier :: "string \<Rightarrow> bool" where
  "spec_is_identifier x =
     (\<exists>i \<in> set [0..<Suc (length x)]. \<exists>j \<in> set [i..<Suc (length x)].
        is_digits (take i x) \<and> opt_part CHR ''.'' (take (j - i) (drop i x))
        \<and> opt_part CHR ''v'' (drop j x))"

definition shape_prefixes :: "string list" where
  "shape_prefixes =
     [scheme @ www @ ''arxiv.org/'' @ kind @ ''/''.
        scheme \<leftarrow> ['''', ''http://'', ''https://''], www \<leftarrow> ['''', ''www.''],
        kind \<leftarrow> [''abs'', ''pdf'']]"

definition spec_has_shape :: "string \<Rightarrow> bool" where
  "spec_has_shape x =
     (\<exists>p \<in> set shape_prefixes. take (length p) x = p \<and> spec_is_identifier (drop (length p) x))"

definition spec_shape_at :: "string \<Rightarrow> bool" where
  "spec_shape_at t = (\<exists>k \<in> set [0..<Suc (length t)]. spec_has_shape (take k t))"

definition spec_matches_shape :: "string \<Rightarrow> bool" where
  "spec_matches_shape s = (\<exists>i \<in> set [0..<Suc (length s)]. spec_shape_at (drop i s))"

section \<open>The language of a pattern\<close>

text \<open>The words a pattern can match, regardless of the order in which they are tried.\<close>

inductive_set star :: "string set \<Rightarrow> string set" for A :: "string set" where
  star_Nil: "[] \<in> star A"
| star_app: "u \<in> A \<Longrightarrow> v \<in> star A \<Longrightarrow> u @ v \<in> star A"

fun lang :: "regex \<Rightarrow> string set" where
  "lang Eps = {[]}"
| "lang (Chr c) = {[c]}"
| "lang Digit = {[c] | c. is_digit c}"
| "lang (Seq a b) = {u @ v | u v. u \<in> lang a \<and> v \<in> lang b}"
| "lang (Alt a b) = lang a \<union> lang b"
| "lang (Opt a) = insert [] (lang a)"
| "lang (Star a) = star (lang a)"
| "lang (Group a) = lang a"

definition idRegex :: regex where
  "idRegex = Seq (Plus Digit)
                (Seq (Opt (Seq (Chr CHR ''.'') (Plus Digit)))
                     (Opt (Seq (Chr CHR ''v'') (Plus Digit))))"

section \<open>The greedy end of an identifier\<close>

text \<open>
  What is left of a text after its longest leading identifier has been read: the digits,
  then a dot with digits if there is one, then \<open>v\<close> with digits if there is one. The
  lemmas below show that the first state the matcher reaches for the group is this one.
\<close>

definition skip_opt :: "char \<Rightarrow> string \<Rightarrow> string" where
  "skip_opt c v =
     (case v of
        [] \<Rightarrow> v
      | x # w \<Rightarrow> (case w of
                   [] \<Rightarrow> v
                 | d # e \<Rightarrow> if x = c \<and> is_digit d then dropWhile is_digit w else v))"

definition greedy_rest :: "string \<Rightarrow> string" where
  "greedy_rest u = skip_opt CHR ''v'' (skip_opt CHR ''.'' (dropWhile is_digit u))"

section \<open>Reachable states\<close>

text \<open>
  The states the component can be in: the initial one, and those that follow a change of
  the input field or a submission, with any behaviour of the remote call.
\<close>

inductive_set reachable :: "parser \<Rightarrow> app_state set" for parse :: parser where
  reach_init: "initial_state \<in> reachable parse"
| reach_setUrl: "st \<in> reachable parse \<Longrightarrow> setUrl u st \<in> reachable parse"
| reach_pending:
    "st \<in> reachable parse \<Longrightarrow> pending (handleSubmit parse callAIAgent st) = Some p \<Longrightarrow>
     p \<in> reachable parse"
| reach_settled:
    "st \<in> reachable parse \<Longrightarrow> settled (handleSubmit parse callAIAgent st) \<in> reachable parse"

section \<open>Sample values\<close>

text \<open>
  Concrete values for the examples: a metadata object, a response built from its four
  parts, a parser that cannot parse and one that parses everything to a given response, a
  remote call that raises and one that resolves to a given text, and the state in which
  the user has typed an input into the initial form.
\<close>

definition sample_metadata :: PaperMetadata where
  "sample_metadata =
     \<lparr>title = ''T'', authors = [''A'', ''B''], abstract = ''S'',
      url = ''https://arxiv.org/abs/1234.56789'', published_date = ''2020-01-01''\<rparr>"

definition sample_response :: "bool \<Rightarrow> PaperMetadata option \<Rightarrow> string option \<Rightarrow> string option
    \<Rightarrow> SummaryResponse" where
  "sample_response ok m s e = \<lparr>success = ok, data = \<lparr>metadata = m, summary = s, error = e\<rparr>\<rparr>"

definition parse_fails :: parser where
  [simp]: "parse_fails raw = None"

definition parse_to :: "SummaryResponse \<Rightarrow> parser" where
  [simp]: "parse_to r raw = Some r"

definition agent_rejects :: agent where
  [simp]: "agent_rejects message agentId = Rejects"

definition agent_resolves :: "string \<Rightarrow> agent" where
  [simp]: "agent_resolves raw message agentId = Resolves raw"

definition sample_state :: "string \<Rightarrow> app_state" where
  "sample_state u = setUrl u initial_state"

section \<open>The matcher and the language\<close>

declare rmatch.simps [simp del]
declare regex_exec.simps [simp del]

lemma set_rmatch_Seq:
  "set (rmatch (Seq a b) st) = (\<Union>m \<in> set (rmatch a st). set (rmatch b m))"
  by (simp add: rmatch.simps(4))

lemma set_rmatch_Star:
  "set (rmatch (Star a) st) =
     insert st (\<Union>m \<in> {m \<in> set (rmatch a st). length (fst m) < length (fst st)}.
                  set (rmatch (Star a) m))"
  by (subst rmatch.simps(7)) auto

lemma set_rmatch_Group:
  "set (rmatch (Group a) (s, g)) =
     (\<lambda>m. (fst m, Some (take (length s - length (fst m)) s))) ` set (rmatch a (s, g))"
  by (simp add: rmatch.simps(8) case_prod_beta)

lemma rmatch_sound:
  "st' \<in> set (rmatch r st) \<Longrightarrow> \<exists>w \<in> lang r. fst st = w @ fst st'"
proof (induction r st arbitrary: st' rule: rmatch.induct)
  case (1 st)
  then show ?case by (simp add: rmatch.simps(1))
next
  case (2 c s g)
  then show ?case by (cases s) (auto simp: rmatch.simps(2) split: if_splits)
next
  case (3 s g)
  then show ?case by (cases s) (auto simp: rmatch.simps(3) split: if_splits)
next
  case (4 a b st)
  from "4.prems" obtain m where m: "m \<in> set (rmatch a st)" and st': "st' \<in> set (rmatch b m)"
    unfolding set_rmatch_Seq by blast
  from "4.IH"(1)[OF m] obtain u where u: "u \<in> lang a" "fst st = u @ fst m" by blast
  from "4.IH"(2)[OF m st'] obtain v where v: "v \<in> lang b" "fst m = v @ fst st'" by blast
  from u v have "u @ v \<in> lang (Seq a b)" "fst st = (u @ v) @ fst st'" by auto
  then show ?case by blast
next
  case (5 a b st)
  from "5.prems" consider "st' \<in> set (rmatch a st)" | "st' \<in> set (rmatch b st)"
    by (auto simp: rmatch.simps(5))
  then show ?case
  proof cases
    case 1
    from "5.IH"(1)[OF 1] show ?thesis by auto
  next
    case 2
    from "5.IH"(2)[OF 2] show ?thesis by auto
  qed
next
  case (6 a st)
  from "6.prems" consider "st' \<in> set (rmatch a st)" | "st' = st"
    by (auto simp: rmatch.simps(6))
  then show ?case
  proof cases
    case 1
    from "6.IH"[OF 1] show ?thesis by auto
  next
    case 2
    then show ?thesis by simp
  qed
next
  case (7 a st)
  from "7.prems" consider "st' = st"
    | m where "m \<in> set (rmatch a st)" "length (fst m) < length (fst st)"
        "st' \<in> set (rmatch (Star a) m)"
    by (subst (asm) set_rmatch_Star) blast
  then show ?case
  proof cases
    case 1
    then show ?thesis by (auto intro: star.star_Nil)
  next
    case (2 m)
    from "7.IH"(1)[OF 2(1)] obtain u where u: "u \<in> lang a" "fst st = u @ fst m" by blast
    from "7.IH"(2)[OF 2(1) 2(2) 2(3)] obtain v where
      v: "v \<in> star (lang a)" "fst m = v @ fst st'" by auto
    from u v have "u @ v \<in> lang (Star a)" "fst st = (u @ v) @ fst st'"
      by (auto intro: star.star_app)
    then show ?thesis by blast
  qed
next
  case (8 a s g)
  from "8.prems" obtain m where m: "m \<in> set (rmatch a (s, g))" and "fst st' = fst m"
    unfolding set_rmatch_Group by auto
  with "8.IH"[OF m] show ?case by simp
qed

lemma rmatch_star_complete:
  assumes a: "\<And>w s' g. w \<in> lang a \<Longrightarrow> \<exists>g'. (s', g') \<in> set (rmatch a (w @ s', g))"
  shows "w \<in> star (lang a) \<Longrightarrow> \<exists>g'. (s', g') \<in> set (rmatch (Star a) (w @ s', g))"
proof (induction w arbitrary: g rule: star.induct)
  case star_Nil
  have "([] @ s', g) \<in> set (rmatch (Star a) ([] @ s', g))"
    by (subst set_rmatch_Star) simp
  then show ?case by auto
next
  case (star_app u v)
  show ?case
  proof (cases "u = []")
    case True
    with star_app.IH show ?thesis by simp
  next
    case False
    from a[OF star_app.hyps(1)] obtain g1 where g1: "(v @ s', g1) \<in> set (rmatch a (u @ v @ s', g))"
      by blast
    from star_app.IH obtain g' where g': "(s', g') \<in> set (rmatch (Star a) (v @ s', g1))"
      by blast
    from False have "length (fst (v @ s', g1)) < length (fst (u @ v @ s', g))" by simp
    with g1 g' have "(s', g') \<in> set (rmatch (Star a) (u @ v @ s', g))"
      by (subst set_rmatch_Star) blast
    then show ?thesis by auto
  qed
qed

lemma rmatch_complete:
  "w \<in> lang r \<Longrightarrow> \<exists>g'. (s', g') \<in> set (rmatch r (w @ s', g))"
proof (induction r arbitrary: w s' g)
  case Eps
  then show ?case by (simp add: rmatch.simps(1))
next
  case (Chr c)
  then show ?case by (simp add: rmatch.simps(2))
next
  case Digit
  then show ?case by (auto simp: rmatch.simps(3))
next
  case (Seq a b)
  from Seq.prems obtain u v where w: "w = u @ v" and u: "u \<in> lang a" and v: "v \<in> lang b"
    by auto
  from Seq.IH(1)[OF u] obtain g1 where g1: "(v @ s', g1) \<in> set (rmatch a (u @ v @ s', g))"
    by blast
  from Seq.IH(2)[OF v] obtain g' where "(s', g') \<in> set (rmatch b (v @ s', g1))" by blast
  with g1 have "(s', g') \<in> set (rmatch (Seq a b) (u @ v @ s', g))"
    unfolding set_rmatch_Seq by blast
  with w show ?case by auto
next
  case (Alt a b)
  from Alt.prems consider "w \<in> lang a" | "w \<in> lang b" by auto
  then show ?case
  proof cases
    case 1
    from Alt.IH(1)[OF 1, of s' g] show ?thesis by (auto simp: rmatch.simps(5))
  next
    case 2
    from Alt.IH(2)[OF 2, of s' g] show ?thesis by (auto simp: rmatch.simps(5))
  qed
next
  case (Opt a)
  from Opt.prems consider "w \<in> lang a" | "w = []" by auto
  then show ?case
  proof cases
    case 1
    from Opt.IH[OF 1, of s' g] show ?thesis by (auto simp: rmatch.simps(6))
  next
    case 2
    then show ?thesis by (auto simp: rmatch.simps(6))
  qed
next
  case (Star a)
  then show ?case using rmatch_star_complete[of a w s' g] by simp
next
  case (Group a)
  from Group.prems have "w \<in> lang a" by simp
  from Group.IH[OF this] obtain g' where
    "(s', g') \<in> set (rmatch a (w @ s', g))" by blast
  then have "(s', Some (take (length (w @ s') - length s') (w @ s'))) \<in> set (rmatch (Group a) (w @ s', g))"
    unfolding set_rmatch_Group by force
  then show ?case by blast
qed

lemma regex_exec_None:
  "regex_exec r s = None \<longleftrightarrow> (\<forall>i \<le> length s. rmatch r (drop i s, None) = [])"
proof (induction s)
  case Nil
  show ?case by (subst regex_exec.simps) (auto split: list.splits)
next
  case (Cons x t)
  have "(\<forall>i \<le> length (x # t). rmatch r (drop i (x # t), None) = []) \<longleftrightarrow>
        rmatch r (x # t, None) = [] \<and> (\<forall>i \<le> length t. rmatch r (drop i t, None) = [])"
    (is "?L \<longleftrightarrow> ?R")
  proof
    assume l: ?L
    from l have "rmatch r (drop 0 (x # t), None) = []" by blast
    moreover have "\<forall>i \<le> length t. rmatch r (drop i t, None) = []"
    proof (intro allI impI)
      fix i assume "i \<le> length t"
      with l have "rmatch r (drop (Suc i) (x # t), None) = []" by auto
      then show "rmatch r (drop i t, None) = []" by simp
    qed
    ultimately show ?R by simp
  next
    assume r: ?R
    show ?L
    proof (intro allI impI)
      fix i assume "i \<le> length (x # t)"
      with r show "rmatch r (drop i (x # t), None) = []" by (cases i) auto
    qed
  qed
  with Cons.IH show ?case
    by (subst regex_exec.simps) (auto split: list.splits)
qed

lemma regex_exec_Some:
  "regex_exec r s = Some (m, g) \<Longrightarrow>
     \<exists>pre post rest. s = pre @ m @ post \<and> rmatch r (m @ post, None) = (post, g) # rest
        \<and> (\<forall>i < length pre. rmatch r (drop i s, None) = [])"
proof (induction s)
  case Nil
  from Nil.prems obtain s' rest where r: "rmatch r ([], None) = (s', g) # rest"
    and m: "m = take (length ([]::string) - length s') []"
    by (subst (asm) regex_exec.simps) (auto split: list.splits)
  from rmatch_sound[of "(s', g)" r "([], None)"] r have "s' = []" by simp
  with r m show ?case by simp
next
  case (Cons x t)
  show ?case
  proof (cases "rmatch r (x # t, None)")
    case Nil
    with Cons.prems have "regex_exec r t = Some (m, g)"
      by (subst (asm) regex_exec.simps) simp
    from Cons.IH[OF this] obtain pre post rest where
      t: "t = pre @ m @ post" and hd: "rmatch r (m @ post, None) = (post, g) # rest"
      and left: "\<forall>i < length pre. rmatch r (drop i t, None) = []" by blast
    have "\<forall>i < length (x # pre). rmatch r (drop i (x # t), None) = []"
    proof (intro allI impI)
      fix i assume "i < length (x # pre)"
      with left Nil show "rmatch r (drop i (x # t), None) = []" by (cases i) auto
    qed
    with t hd have "x # t = (x # pre) @ m @ post \<and> rmatch r (m @ post, None) = (post, g) # rest
        \<and> (\<forall>i < length (x # pre). rmatch r (drop i (x # t), None) = [])" by simp
    then show ?thesis by blast
  next
    case (Cons st' rest)
    obtain s' g' where st': "st' = (s', g')" by (cases st')
    with Cons Cons.prems have m: "m = take (length (x # t) - length s') (x # t)" and g: "g' = g"
      by (subst (asm) regex_exec.simps, simp)+
    from rmatch_sound[of st' r "(x # t, None)"] Cons st'
    obtain w where w: "x # t = w @ s'" by auto
    with m have "m = w" by simp
    with w Cons st' g have "x # t = [] @ m @ s' \<and> rmatch r (m @ s', None) = (s', g) # rest
      \<and> (\<forall>i < length ([]::string). rmatch r (drop i (x # t), None) = [])" by simp
    then show ?thesis by blast
  qed
qed

section \<open>The pattern of \<open>App.tsx\<close> and the specification's shape\<close>

lemma lang_lit: "lang (lit p) = {p}"
  by (induction p) auto

lemma star_digits: "star {[c] | c. is_digit c} = {w. list_all is_digit w}"
proof (intro set_eqI iffI)
  fix w assume "w \<in> star {[c] | c. is_digit c}"
  then show "w \<in> {w. list_all is_digit w}"
    by (induction rule: star.induct) auto
next
  fix w :: string assume "w \<in> {w. list_all is_digit w}"
  then have "list_all is_digit w" by simp
  then show "w \<in> star {[c] | c. is_digit c}"
  proof (induction w)
    case Nil
    show ?case by (rule star.star_Nil)
  next
    case (Cons c w)
    then have "[c] \<in> {[c] | c. is_digit c}" "w \<in> star {[c] | c. is_digit c}" by auto
    from star.star_app[OF this] show ?case by simp
  qed
qed

lemma lang_Plus_Digit: "lang (Plus Digit) = {w. is_digits w}"
proof (intro set_eqI iffI)
  fix w assume "w \<in> lang (Plus Digit)"
  then obtain u v where "w = u @ v" "u \<in> {[c] | c. is_digit c}" "list_all is_digit v"
    by (auto simp: star_digits)
  then show "w \<in> {w. is_digits w}" by (auto simp: is_digits_def)
next
  fix w assume "w \<in> {w. is_digits w}"
  then obtain c v where w: "w = [c] @ v" and c: "is_digit c" and v: "list_all is_digit v"
    by (cases w) (auto simp: is_digits_def)
  from c have "[c] \<in> lang Digit" by simp
  moreover from v have "v \<in> lang (Star Digit)" by (simp add: star_digits)
  ultimately have "[c] @ v \<in> lang (Plus Digit)" unfolding lang.simps(4) by blast
  with w show "w \<in> lang (Plus Digit)" by simp
qed

lemma lang_opt_part:
  "lang (Opt (Seq (Chr c) (Plus Digit))) = {w. opt_part c w}"
proof -
  have "lang (Opt (Seq (Chr c) (Plus Digit))) = insert [] {c # v | v. v \<in> lang (Plus Digit)}"
    by (simp del: lang.simps(7))
  also have "\<dots> = {w. opt_part c w}"
  proof (intro set_eqI)
    fix w show "w \<in> insert [] {c # v | v. v \<in> lang (Plus Digit)} \<longleftrightarrow> w \<in> {w. opt_part c w}"
      unfolding lang_Plus_Digit by (cases w) (auto simp: opt_part_def)
  qed
  finally show ?thesis .
qed

lemma split3_iff:
  "(\<exists>i \<in> set [0..<Suc (length x)]. \<exists>j \<in> set [i..<Suc (length x)].
      P (take i x) (take (j - i) (drop i x)) (drop j x))
   \<longleftrightarrow> (\<exists>a b c. x = a @ b @ c \<and> P a b c)"
proof
  assume "\<exists>i \<in> set [0..<Suc (length x)]. \<exists>j \<in> set [i..<Suc (length x)].
      P (take i x) (take (j - i) (drop i x)) (drop j x)"
  then obtain i j where "i \<in> set [0..<Suc (length x)]" "j \<in> set [i..<Suc (length x)]"
    and p: "P (take i x) (take (j - i) (drop i x)) (drop j x)" by blast
  then have ij: "i \<le> j" "j \<le> length x" unfolding set_upt by simp_all
  have "drop i x = take (j - i) (drop i x) @ drop (j - i) (drop i x)"
    by (rule append_take_drop_id[symmetric])
  moreover from ij have "drop (j - i) (drop i x) = drop j x" by simp
  moreover have "x = take i x @ drop i x" by (rule append_take_drop_id[symmetric])
  ultimately have "x = take i x @ take (j - i) (drop i x) @ drop j x" by simp
  with p show "\<exists>a b c. x = a @ b @ c \<and> P a b c" by blast
next
  assume "\<exists>a b c. x = a @ b @ c \<and> P a b c"
  then obtain a b c where x: "x = a @ b @ c" and p: "P a b c" by blast
  let ?i = "length a" and ?j = "length a + length b"
  from x have "take ?i x = a" "take (?j - ?i) (drop ?i x) = b" "drop ?j x = c" by auto
  with p have "P (take ?i x) (take (?j - ?i) (drop ?i x)) (drop ?j x)" by simp
  moreover from x have "?i \<in> set [0..<Suc (length x)]" "?j \<in> set [?i..<Suc (length x)]"
    unfolding set_upt by simp_all
  ultimately show "\<exists>i \<in> set [0..<Suc (length x)]. \<exists>j \<in> set [i..<Suc (length x)].
      P (take i x) (take (j - i) (drop i x)) (drop j x)" by blast
qed

lemma lang_idRegex: "x \<in> lang idRegex \<longleftrightarrow> spec_is_identifier x"
proof -
  have "x \<in> lang idRegex \<longleftrightarrow>
        (\<exists>a b c. x = a @ b @ c \<and> a \<in> lang (Plus Digit)
           \<and> b \<in> lang (Opt (Seq (Chr CHR ''.'') (Plus Digit)))
           \<and> c \<in> lang (Opt (Seq (Chr CHR ''v'') (Plus Digit))))"
    unfolding idRegex_def lang.simps(4)[of "Plus Digit"]
      lang.simps(4)[of "Opt (Seq (Chr CHR ''.'') (Plus Digit))"] by blast
  also have "\<dots> \<longleftrightarrow> (\<exists>a b c. x = a @ b @ c \<and> is_digits a
           \<and> opt_part CHR ''.'' b \<and> opt_part CHR ''v'' c)"
    unfolding lang_Plus_Digit lang_opt_part by simp
  also have "\<dots> \<longleftrightarrow> spec_is_identifier x"
    unfolding spec_is_identifier_def
    by (rule split3_iff[where P = "\<lambda>a b c. is_digits a \<and> opt_part CHR ''.'' b \<and> opt_part CHR ''v'' c"
          and x = x, symmetric])
  finally show ?thesis .
qed

lemma spec_is_identifier_nonempty: "spec_is_identifier x \<Longrightarrow> x \<noteq> []"
  by (auto simp: spec_is_identifier_def is_digits_def)

lemma lang_Seq_I: "u \<in> lang a \<Longrightarrow> v \<in> lang b \<Longrightarrow> u @ v \<in> lang (Seq a b)"
  by auto

lemma lang_scheme:
  "lang (Opt (Seq (lit ''http'') (Seq (Opt (Chr CHR ''s'')) (lit ''://'')))) =
     {'''', ''http://'', ''https://''}"
  by (auto simp: lang_lit)

lemma lang_www: "lang (Opt (lit ''www.'')) = {'''', ''www.''}"
  by (auto simp: lang_lit)

lemma lang_kind: "lang (Alt (lit ''abs'') (lit ''pdf'')) = {''abs'', ''pdf''}"
  by (auto simp: lang_lit)

lemma shape_prefixes_I:
  "scheme \<in> {'''', ''http://'', ''https://''} \<Longrightarrow> www \<in> {'''', ''www.''} \<Longrightarrow>
   kind \<in> {''abs'', ''pdf''} \<Longrightarrow>
   scheme @ www @ ''arxiv.org/'' @ kind @ ''/'' \<in> set shape_prefixes"
  by (auto simp: shape_prefixes_def)

lemma shape_prefixes_E:
  assumes p: "p \<in> set shape_prefixes"
    and H: "\<And>scheme www kind. scheme \<in> {'''', ''http://'', ''https://''} \<Longrightarrow>
              www \<in> {'''', ''www.''} \<Longrightarrow> kind \<in> {''abs'', ''pdf''} \<Longrightarrow>
              Q (scheme @ www @ ''arxiv.org/'' @ kind @ ''/'')"
  shows "Q p"
proof -
  from H have "\<forall>scheme \<in> {'''', ''http://'', ''https://''}. \<forall>www \<in> {'''', ''www.''}.
      \<forall>kind \<in> {''abs'', ''pdf''}. Q (scheme @ www @ ''arxiv.org/'' @ kind @ ''/'')"
    by blast
  with p show ?thesis by (auto simp: shape_prefixes_def)
qed

lemma rmatch_Star_Digit_hd:
  "\<exists>xs. rmatch (Star Digit) (u, g) = (dropWhile is_digit u, g) # xs"
proof (induction u)
  case Nil
  show ?case by (subst rmatch.simps(7)) (simp add: rmatch.simps(3))
next
  case (Cons x w)
  show ?case
  proof (cases "is_digit x")
    case True
    from Cons.IH obtain xs where "rmatch (Star Digit) (w, g) = (dropWhile is_digit w, g) # xs"
      by blast
    with True show ?thesis by (subst rmatch.simps(7)) (simp add: rmatch.simps(3))
  next
    case False
    then show ?thesis by (subst rmatch.simps(7)) (simp add: rmatch.simps(3))
  qed
qed

lemma rmatch_Plus_Digit_hd:
  "rmatch (Plus Digit) (u, g) =
     (case u of [] \<Rightarrow> [] | x # w \<Rightarrow> if is_digit x then rmatch (Star Digit) (w, g) else [])"
  by (cases u) (simp_all add: rmatch.simps(3,4))

lemma rmatch_Plus_Digit_Cons:
  "is_digit x \<Longrightarrow> \<exists>xs. rmatch (Plus Digit) (x # w, g) = (dropWhile is_digit w, g) # xs"
  using rmatch_Star_Digit_hd[of w g] by (simp add: rmatch_Plus_Digit_hd)

lemma rmatch_opt_hd:
  "\<exists>xs. rmatch (Opt (Seq (Chr c) (Plus Digit))) (v, g) = (skip_opt c v, g) # xs"
proof (cases v)
  case Nil
  then show ?thesis by (simp add: rmatch.simps(2,4,6) skip_opt_def)
next
  case (Cons x w)
  show ?thesis
  proof (cases "x = c")
    case False
    with Cons show ?thesis
      by (simp add: rmatch.simps(2,6) rmatch.simps(4)[of "Chr c"] skip_opt_def split: list.splits)
  next
    case True
    show ?thesis
    proof (cases w)
      case Nil
      with Cons True show ?thesis
        by (simp add: rmatch.simps(2,6) rmatch.simps(4)[of "Chr c"] rmatch_Plus_Digit_hd
            skip_opt_def)
    next
      case (Cons d e)
      show ?thesis
      proof (cases "is_digit d")
        case True
        from rmatch_Plus_Digit_Cons[OF True, of e g] obtain xs where
          "rmatch (Plus Digit) (d # e, g) = (dropWhile is_digit e, g) # xs" by blast
        with \<open>v = x # w\<close> \<open>x = c\<close> Cons True show ?thesis
          by (simp add: rmatch.simps(2,6) rmatch.simps(4)[of "Chr c"] skip_opt_def)
      next
        case False
        with \<open>v = x # w\<close> \<open>x = c\<close> Cons show ?thesis
          by (simp add: rmatch.simps(2,6) rmatch.simps(4)[of "Chr c"] rmatch_Plus_Digit_hd
              skip_opt_def)
      qed
    qed
  qed
qed

lemma rmatch_Seq_Cons:
  "rmatch a st = m # ms \<Longrightarrow> rmatch b m = x # xs \<Longrightarrow>
   rmatch (Seq a b) st = x # (xs @ concat (map (rmatch b) ms))"
  by (simp add: rmatch.simps(4))

lemma rmatch_idRegex_hd:
  assumes "rmatch idRegex (u, g) = x # xs"
  shows "x = (greedy_rest u, g)"
proof (cases u)
  case Nil
  with assms show ?thesis
    unfolding idRegex_def by (simp add: rmatch.simps(4)[of "Plus Digit"] rmatch_Plus_Digit_hd)
next
  case (Cons d w)
  show ?thesis
  proof (cases "is_digit d")
    case False
    with assms Cons show ?thesis
      unfolding idRegex_def by (simp add: rmatch.simps(4)[of "Plus Digit"] rmatch_Plus_Digit_hd)
  next
    case True
    from rmatch_Plus_Digit_Cons[OF True, of w g] obtain ms where
      1: "rmatch (Plus Digit) (u, g) = (dropWhile is_digit w, g) # ms" using Cons by blast
    from rmatch_opt_hd[of "CHR ''.''" "dropWhile is_digit w" g] obtain ys where
      2: "rmatch (Opt (Seq (Chr CHR ''.'') (Plus Digit))) (dropWhile is_digit w, g) =
            (skip_opt CHR ''.'' (dropWhile is_digit w), g) # ys" by blast
    from rmatch_opt_hd[of "CHR ''v''" "skip_opt CHR ''.'' (dropWhile is_digit w)" g] obtain zs where
      3: "rmatch (Opt (Seq (Chr CHR ''v'') (Plus Digit)))
            (skip_opt CHR ''.'' (dropWhile is_digit w), g) =
            (skip_opt CHR ''v'' (skip_opt CHR ''.'' (dropWhile is_digit w)), g) # zs" by blast
    from rmatch_Seq_Cons[OF 1 rmatch_Seq_Cons[OF 2 3]] assms
    have "x = (skip_opt CHR ''v'' (skip_opt CHR ''.'' (dropWhile is_digit w)), g)"
      unfolding idRegex_def by simp
    with Cons True show ?thesis by (simp add: greedy_rest_def)
  qed
qed


lemma dropWhile_digits: "list_all is_digit a \<Longrightarrow> dropWhile is_digit (a @ r) = dropWhile is_digit r"
  by (rule dropWhile_append2) (simp add: list_all_iff)

lemma skip_opt_length: "length (skip_opt c v) \<le> length v"
proof (cases "skip_opt c v = v")
  case True
  then show ?thesis by simp
next
  case False
  then obtain x w where v: "v = x # w" and s: "skip_opt c v = dropWhile is_digit w"
    by (auto simp: skip_opt_def split: list.splits if_splits)
  from length_dropWhile_le[of is_digit w] v s show ?thesis by simp
qed

lemma skip_opt_taken:
  assumes "is_digits e"
  shows "skip_opt c (c # e @ r) = dropWhile is_digit r"
proof -
  from assms obtain d e' where e: "e = d # e'" and d: "is_digit d" and a: "list_all is_digit e"
    unfolding is_digits_def by (cases e) auto
  from a have "dropWhile is_digit (e @ r) = dropWhile is_digit r" by (rule dropWhile_digits)
  with e d show ?thesis by (simp add: skip_opt_def)
qed

lemma skip_opt_other: "x \<noteq> c \<Longrightarrow> skip_opt c (x # w) = x # w"
  by (simp add: skip_opt_def split: list.splits)

lemma greedy_rest_maximal:
  assumes i: "spec_is_identifier w"
  shows "length (greedy_rest (w @ rest)) \<le> length rest"
proof -
  from i obtain a b c where w: "w = a @ b @ c" and a: "is_digits a"
    and b: "opt_part CHR ''.'' b" and c: "opt_part CHR ''v'' c"
    unfolding spec_is_identifier_def
      split3_iff[where P = "\<lambda>a b c. is_digits a \<and> opt_part CHR ''.'' b \<and> opt_part CHR ''v'' c"]
    by blast
  have nd: "\<not> is_digit CHR ''.''" "\<not> is_digit CHR ''v''" by (simp_all add: is_digit_def)
  from a have "list_all is_digit a" by (simp add: is_digits_def)
  then have D: "dropWhile is_digit (w @ rest) = dropWhile is_digit (b @ c @ rest)"
    unfolding w using dropWhile_digits[of a "b @ c @ rest"] by simp
  have le: "length (skip_opt CHR ''v'' (skip_opt CHR ''.'' (dropWhile is_digit rest)))
              \<le> length rest"
    using skip_opt_length[of "CHR ''v''" "skip_opt CHR ''.'' (dropWhile is_digit rest)"]
      skip_opt_length[of "CHR ''.''" "dropWhile is_digit rest"]
      length_dropWhile_le[of is_digit rest] by linarith
  have V: "length (skip_opt CHR ''v'' (dropWhile is_digit (c @ rest))) \<le> length rest"
  proof (cases c)
    case Nil
    then show ?thesis
      using skip_opt_length[of "CHR ''v''" "dropWhile is_digit rest"]
        length_dropWhile_le[of is_digit rest] by simp
  next
    case (Cons x f)
    with c have x: "x = CHR ''v''" and f: "is_digits f" by (simp_all add: opt_part_def)
    from Cons x nd have "dropWhile is_digit (c @ rest) = CHR ''v'' # f @ rest" by simp
    with skip_opt_taken[OF f, of "CHR ''v''" rest] length_dropWhile_le[of is_digit rest]
    show ?thesis by simp
  qed
  show ?thesis
  proof (cases b)
    case Nil
    show ?thesis
    proof (cases c)
      case Nil
      with \<open>b = []\<close> D le show ?thesis by (simp add: greedy_rest_def)
    next
      case (Cons x f)
      with c have x: "x = CHR ''v''" and f: "is_digits f" by (simp_all add: opt_part_def)
      from Cons x nd have 1: "dropWhile is_digit (c @ rest) = CHR ''v'' # f @ rest" by simp
      have 2: "skip_opt CHR ''.'' (CHR ''v'' # f @ rest) = CHR ''v'' # f @ rest"
        by (rule skip_opt_other) simp
      from \<open>b = []\<close> D 1 2 skip_opt_taken[OF f, of "CHR ''v''" rest]
        length_dropWhile_le[of is_digit rest]
      show ?thesis by (simp add: greedy_rest_def)
    qed
  next
    case (Cons x e)
    with b have x: "x = CHR ''.''" and e: "is_digits e" by (simp_all add: opt_part_def)
    from Cons x nd have 1: "dropWhile is_digit (b @ c @ rest) = CHR ''.'' # e @ c @ rest" by simp
    from D 1 skip_opt_taken[OF e, of "CHR ''.''" "c @ rest"] V
    show ?thesis by (simp add: greedy_rest_def)
  qed
qed

lemma rmatch_Seq_hd:
  assumes "rmatch (Seq a b) st = x # xs"
  shows "\<exists>u m ys. u \<in> lang a \<and> fst st = u @ fst m \<and> rmatch b m = x # ys"
proof -
  have "concat (map f ms) = x # xs \<Longrightarrow> \<exists>m \<in> set ms. \<exists>ys. f m = x # ys"
    for f :: "mstate \<Rightarrow> mstate list" and ms
  proof (induction ms)
    case Nil
    then show ?case by simp
  next
    case (Cons m ms)
    then show ?case by (cases "f m") auto
  qed
  from this[of "rmatch b" "rmatch a st"] assms obtain m ys where
    m: "m \<in> set (rmatch a st)" and h: "rmatch b m = x # ys"
    by (auto simp: rmatch.simps(4))
  from rmatch_sound[OF m] obtain u where "u \<in> lang a" "fst st = u @ fst m" by blast
  with h show ?thesis by blast
qed

lemma rmatch_Group_idRegex_hd:
  assumes "rmatch (Group idRegex) st = x # xs"
  shows "\<exists>w. spec_is_identifier w \<and> fst st = w @ fst x \<and> snd x = Some w
           \<and> fst x = greedy_rest (fst st)"
proof -
  obtain u g where st: "st = (u, g)" by (cases st)
  with assms obtain y ys where y: "rmatch idRegex (u, g) = y # ys"
    and x: "x = (fst y, Some (take (length u - length (fst y)) u))"
    by (cases "rmatch idRegex (u, g)") (auto simp: rmatch.simps(8) case_prod_beta)
  from rmatch_idRegex_hd[OF y] have g: "fst y = greedy_rest u" by simp
  from y have "y \<in> set (rmatch idRegex (u, g))" by simp
  from rmatch_sound[OF this] obtain w where w: "w \<in> lang idRegex" "u = w @ fst y" by auto
  have t: "take (length u - length (fst y)) u = w" unfolding w(2) by simp
  from w(1) have 1: "spec_is_identifier w" by (simp only: lang_idRegex)
  from st w(2) x have 2: "fst st = w @ fst x" by simp
  from x t have 3: "snd x = Some w" by simp
  from x g st have 4: "fst x = greedy_rest (fst st)" by simp
  from 1 2 3 4 show ?thesis by (intro exI conjI)
qed

lemma arxivRegex_hd:
  assumes "rmatch arxivRegex (t, g) = x # xs"
  shows "\<exists>p \<in> set shape_prefixes. \<exists>ident.
           t = p @ ident @ fst x \<and> snd x = Some ident \<and> spec_is_identifier ident
           \<and> fst x = greedy_rest (ident @ fst x)"
proof -
  from assms have r0: "rmatch
      (Seq (Opt (Seq (lit ''http'') (Seq (Opt (Chr CHR ''s'')) (lit ''://''))))
      (Seq (Opt (lit ''www.'')) (Seq (lit ''arxiv.org/'')
      (Seq (Alt (lit ''abs'') (lit ''pdf'')) (Seq (Chr CHR ''/'') (Group idRegex)))))) (t, g)
      = x # xs"
    unfolding arxivRegex_def idRegex_def .
  from rmatch_Seq_hd[OF r0, unfolded lang_scheme]
  obtain u1 m1 ys1 where u1: "u1 \<in> {'''', ''http://'', ''https://''}"
      and t1: "fst (t, g) = u1 @ fst m1"
      and r1: "rmatch (Seq (Opt (lit ''www.'')) (Seq (lit ''arxiv.org/'')
                 (Seq (Alt (lit ''abs'') (lit ''pdf'')) (Seq (Chr CHR ''/'')
                 (Group idRegex))))) m1 = x # ys1"
    by blast
  from rmatch_Seq_hd[OF r1, unfolded lang_www]
  obtain u2 m2 ys2 where u2: "u2 \<in> {'''', ''www.''}" and t2: "fst m1 = u2 @ fst m2"
      and r2: "rmatch (Seq (lit ''arxiv.org/'')
                 (Seq (Alt (lit ''abs'') (lit ''pdf'')) (Seq (Chr CHR ''/'')
                 (Group idRegex)))) m2 = x # ys2"
    by blast
  from rmatch_Seq_hd[OF r2, unfolded lang_lit]
  obtain u3 m3 ys3 where u3: "u3 \<in> {''arxiv.org/''}" and t3: "fst m2 = u3 @ fst m3"
      and r3: "rmatch (Seq (Alt (lit ''abs'') (lit ''pdf'')) (Seq (Chr CHR ''/'')
                 (Group idRegex))) m3 = x # ys3"
    by blast
  from rmatch_Seq_hd[OF r3, unfolded lang_kind]
  obtain u4 m4 ys4 where u4: "u4 \<in> {''abs'', ''pdf''}" and t4: "fst m3 = u4 @ fst m4"
      and r4: "rmatch (Seq (Chr CHR ''/'') (Group idRegex)) m4 = x # ys4"
    by blast
  from rmatch_Seq_hd[OF r4]
  obtain u5 m5 ys5 where u5: "u5 \<in> lang (Chr CHR ''/'')" and t5: "fst m4 = u5 @ fst m5"
      and r5: "rmatch (Group idRegex) m5 = x # ys5"
    by blast
  from rmatch_Group_idRegex_hd[OF r5]
  obtain w where w: "spec_is_identifier w" and t6: "fst m5 = w @ fst x"
      and cap: "snd x = Some w" and gr: "fst x = greedy_rest (fst m5)"
    by blast
  from u5 have u5': "u5 = ''/''" by simp
  from u3 have u3': "u3 = ''arxiv.org/''" by simp
  have "u1 @ u2 @ ''arxiv.org/'' @ u4 @ ''/'' \<in> set shape_prefixes"
    using u1 u2 u4 by (rule shape_prefixes_I)
  moreover from t1 t2 t3 t4 t5 t6 u3' u5'
  have "t = (u1 @ u2 @ ''arxiv.org/'' @ u4 @ ''/'') @ w @ fst x" by simp
  moreover from gr t6 have "fst x = greedy_rest (w @ fst x)" by simp
  ultimately show ?thesis using cap w by blast
qed

lemma arxivRegex_lang:
  assumes p: "p \<in> set shape_prefixes" and i: "spec_is_identifier ident"
  shows "p @ ident \<in> lang arxivRegex"
  using p
proof (rule shape_prefixes_E)
  fix u1 u2 u4 :: string
  assume u1: "u1 \<in> {'''', ''http://'', ''https://''}" and u2: "u2 \<in> {'''', ''www.''}"
    and u4: "u4 \<in> {''abs'', ''pdf''}"
  from i have "ident \<in> lang (Group idRegex)" by (simp add: lang_idRegex)
  moreover have "''/'' \<in> lang (Chr CHR ''/'')" by simp
  ultimately have "''/'' @ ident \<in> lang (Seq (Chr CHR ''/'') (Group idRegex))"
    by (rule lang_Seq_I[rotated])
  moreover from u4 have "u4 \<in> lang (Alt (lit ''abs'') (lit ''pdf''))"
    by (simp only: lang_kind)
  ultimately have "u4 @ ''/'' @ ident \<in>
      lang (Seq (Alt (lit ''abs'') (lit ''pdf'')) (Seq (Chr CHR ''/'') (Group idRegex)))"
    by (rule lang_Seq_I[rotated])
  moreover have "''arxiv.org/'' \<in> lang (lit ''arxiv.org/'')" by (simp only: lang_lit singletonI)
  ultimately have "''arxiv.org/'' @ u4 @ ''/'' @ ident \<in>
      lang (Seq (lit ''arxiv.org/'') (Seq (Alt (lit ''abs'') (lit ''pdf''))
        (Seq (Chr CHR ''/'') (Group idRegex))))"
    by (rule lang_Seq_I[rotated])
  moreover from u2 have "u2 \<in> lang (Opt (lit ''www.''))" by (simp only: lang_www)
  ultimately have "u2 @ ''arxiv.org/'' @ u4 @ ''/'' @ ident \<in>
      lang (Seq (Opt (lit ''www.'')) (Seq (lit ''arxiv.org/'')
        (Seq (Alt (lit ''abs'') (lit ''pdf''))
        (Seq (Chr CHR ''/'') (Group idRegex)))))"
    by (rule lang_Seq_I[rotated])
  moreover from u1 have
    "u1 \<in> lang (Opt (Seq (lit ''http'') (Seq (Opt (Chr CHR ''s'')) (lit ''://''))))"
    by (simp only: lang_scheme)
  ultimately have "u1 @ u2 @ ''arxiv.org/'' @ u4 @ ''/'' @ ident \<in> lang arxivRegex"
    unfolding arxivRegex_def idRegex_def[symmetric] by (rule lang_Seq_I[rotated])
  then show "(u1 @ u2 @ ''arxiv.org/'' @ u4 @ ''/'') @ ident \<in> lang arxivRegex" by simp
qed

lemma spec_has_shape_iff:
  "spec_has_shape x \<longleftrightarrow> (\<exists>p \<in> set shape_prefixes. \<exists>ident. x = p @ ident \<and> spec_is_identifier ident)"
proof
  assume "spec_has_shape x"
  then obtain p where p: "p \<in> set shape_prefixes" "take (length p) x = p"
    "spec_is_identifier (drop (length p) x)" unfolding spec_has_shape_def by blast
  have "x = take (length p) x @ drop (length p) x" by (rule append_take_drop_id[symmetric])
  with p have "x = p @ drop (length p) x" by simp
  with p show "\<exists>p \<in> set shape_prefixes. \<exists>ident. x = p @ ident \<and> spec_is_identifier ident"
    by blast
next
  assume "\<exists>p \<in> set shape_prefixes. \<exists>ident. x = p @ ident \<and> spec_is_identifier ident"
  then obtain p ident where p: "p \<in> set shape_prefixes" and x: "x = p @ ident"
    and i: "spec_is_identifier ident" by blast
  from x i have "take (length p) x = p \<and> spec_is_identifier (drop (length p) x)" by simp
  with p show "spec_has_shape x" unfolding spec_has_shape_def by blast
qed

lemma spec_shape_at_iff:
  "spec_shape_at t \<longleftrightarrow> (\<exists>x rest. t = x @ rest \<and> spec_has_shape x)"
proof
  assume "spec_shape_at t"
  then obtain k where "spec_has_shape (take k t)" unfolding spec_shape_at_def by blast
  moreover have "t = take k t @ drop k t" by (rule append_take_drop_id[symmetric])
  ultimately show "\<exists>x rest. t = x @ rest \<and> spec_has_shape x" by blast
next
  assume "\<exists>x rest. t = x @ rest \<and> spec_has_shape x"
  then obtain x rest where t: "t = x @ rest" and x: "spec_has_shape x" by blast
  from t have "length x \<in> set [0..<Suc (length t)]" unfolding set_upt by simp
  moreover from t x have "spec_has_shape (take (length x) t)" by simp
  ultimately show "spec_shape_at t" unfolding spec_shape_at_def by blast
qed

lemma spec_matches_shape_iff:
  "spec_matches_shape s \<longleftrightarrow> (\<exists>i \<le> length s. spec_shape_at (drop i s))"
  unfolding spec_matches_shape_def set_upt by (auto simp: less_Suc_eq_le)

lemma rmatch_arxiv_iff:
  "rmatch arxivRegex (t, g) \<noteq> [] \<longleftrightarrow> spec_shape_at t"
proof
  assume "rmatch arxivRegex (t, g) \<noteq> []"
  then obtain x xs where "rmatch arxivRegex (t, g) = x # xs"
    by (cases "rmatch arxivRegex (t, g)") auto
  from arxivRegex_hd[OF this] obtain p ident where
    "p \<in> set shape_prefixes" "t = (p @ ident) @ fst x" "spec_is_identifier ident" by auto
  then show "spec_shape_at t" unfolding spec_shape_at_iff spec_has_shape_iff by blast
next
  assume "spec_shape_at t"
  then obtain p ident rest where p: "p \<in> set shape_prefixes" and i: "spec_is_identifier ident"
    and t: "t = (p @ ident) @ rest"
    unfolding spec_shape_at_iff spec_has_shape_iff by blast
  from rmatch_complete[OF arxivRegex_lang[OF p i], of rest g] t
  show "rmatch arxivRegex (t, g) \<noteq> []" by auto
qed

lemma validateArxivUrl_iff: "validateArxivUrl s \<longleftrightarrow> spec_matches_shape s"
proof -
  have "validateArxivUrl s \<longleftrightarrow> \<not> (\<forall>i \<le> length s. rmatch arxivRegex (drop i s, None) = [])"
    unfolding validateArxivUrl_def regex_test_def regex_exec_None ..
  also have "\<dots> \<longleftrightarrow> (\<exists>i \<le> length s. spec_shape_at (drop i s))"
    unfolding rmatch_arxiv_iff[symmetric, where g = None] by blast
  finally show ?thesis unfolding spec_matches_shape_iff .
qed

lemma arxiv_exec_group:
  assumes "regex_exec arxivRegex s = Some (m, g)"
  shows "\<exists>pre p ident post. s = pre @ p @ ident @ post \<and> m = p @ ident \<and> g = Some ident
           \<and> p \<in> set shape_prefixes \<and> spec_is_identifier ident
           \<and> (\<forall>i < length pre. \<not> spec_shape_at (drop i s))
           \<and> (\<forall>post1 post2. post = post1 @ post2 \<and> post1 \<noteq> [] \<longrightarrow>
                \<not> spec_is_identifier (ident @ post1))"
proof -
  from regex_exec_Some[OF assms] obtain pre post rest where
    s: "s = pre @ m @ post" and hd: "rmatch arxivRegex (m @ post, None) = (post, g) # rest"
    and left: "\<forall>i < length pre. rmatch arxivRegex (drop i s, None) = []" by blast
  from arxivRegex_hd[OF hd] obtain p ident where
    p: "p \<in> set shape_prefixes" and mp: "m @ post = p @ ident @ post" and g: "g = Some ident"
    and i: "spec_is_identifier ident" and gr: "post = greedy_rest (ident @ post)" by auto
  from mp have m: "m = p @ ident" by simp
  from left have l: "\<forall>i < length pre. \<not> spec_shape_at (drop i s)"
    unfolding rmatch_arxiv_iff[symmetric, where g = None] by blast
  have mx: "\<forall>post1 post2. post = post1 @ post2 \<and> post1 \<noteq> [] \<longrightarrow>
                \<not> spec_is_identifier (ident @ post1)"
  proof (intro allI impI notI, elim conjE)
    fix post1 post2
    assume sp: "post = post1 @ post2" and ne: "post1 \<noteq> []"
      and k: "spec_is_identifier (ident @ post1)"
    have "length (greedy_rest ((ident @ post1) @ post2)) \<le> length post2"
      using k by (rule greedy_rest_maximal)
    with gr sp have "length post \<le> length post2" by simp
    with sp ne show False by simp
  qed
  from s m have "s = pre @ p @ ident @ post" by simp
  with m g p i l mx show ?thesis by (intro exI conjI)
qed

lemma extractArxivId_match:
  assumes "validateArxivUrl s"
  shows "\<exists>pre p post. s = pre @ p @ extractArxivId s @ post
           \<and> p \<in> set shape_prefixes \<and> spec_is_identifier (extractArxivId s)
           \<and> (\<forall>i < length pre. \<not> spec_shape_at (drop i s))
           \<and> (\<forall>post1 post2. post = post1 @ post2 \<and> post1 \<noteq> [] \<longrightarrow>
                \<not> spec_is_identifier (extractArxivId s @ post1))"
proof -
  from assms obtain m g where e: "regex_exec arxivRegex s = Some (m, g)"
    unfolding validateArxivUrl_def regex_test_def by auto
  from arxiv_exec_group[OF e] obtain pre p ident post where
    r: "s = pre @ p @ ident @ post" "g = Some ident" "p \<in> set shape_prefixes"
      "spec_is_identifier ident" "\<forall>i < length pre. \<not> spec_shape_at (drop i s)"
      "\<forall>post1 post2. post = post1 @ post2 \<and> post1 \<noteq> [] \<longrightarrow>
                \<not> spec_is_identifier (ident @ post1)" by blast
  from e r(2) have x: "extractArxivId s = ident" unfolding extractArxivId_def by simp
  from r show ?thesis unfolding x by (intro exI conjI)
qed

lemma extractArxivId_no_match:
  "\<not> validateArxivUrl s \<Longrightarrow> extractArxivId s = ''''"
  unfolding validateArxivUrl_def regex_test_def extractArxivId_def
  by (cases "regex_exec arxivRegex s") auto

section \<open>The paths of \<open>handleSubmit\<close>\<close>

lemma trim_empty_iff: "trim s = '''' \<longleftrightarrow> (\<forall>c \<in> set s. is_space c)"
proof -
  have "trim s = '''' \<longleftrightarrow> (\<forall>c \<in> set (dropWhile is_space s). is_space c)"
    unfolding trim_def by (simp add: dropWhile_eq_Nil_conv)
  also have "\<dots> \<longleftrightarrow> dropWhile is_space s = []"
  proof
    assume a: "\<forall>c \<in> set (dropWhile is_space s). is_space c"
    show "dropWhile is_space s = []"
    proof (rule ccontr)
      assume n: "dropWhile is_space s \<noteq> []"
      then have "\<not> is_space (hd (dropWhile is_space s))" by (rule hd_dropWhile)
      moreover from n have "hd (dropWhile is_space s) \<in> set (dropWhile is_space s)" by simp
      ultimately show False using a by blast
    qed
  next
    assume e: "dropWhile is_space s = []"
    show "\<forall>c \<in> set (dropWhile is_space s). is_space c" unfolding e by simp
  qed
  also have "\<dots> \<longleftrightarrow> (\<forall>c \<in> set s. is_space c)" by (rule dropWhile_eq_Nil_conv)
  finally show ?thesis .
qed

lemma handleSubmit_blank:
  "trim (url st) = '''' \<Longrightarrow>
     handleSubmit parse callAIAgent st =
       \<lparr>pending = None,
        settled = st\<lparr>error := ''Please enter an arXiv URL'', paperData := None\<rparr>,
        effects = []\<rparr>"
  by (simp add: handleSubmit_def)

lemma handleSubmit_invalid:
  "trim (url st) \<noteq> '''' \<Longrightarrow> \<not> validateArxivUrl (url st) \<Longrightarrow>
     handleSubmit parse callAIAgent st =
       \<lparr>pending = None,
        settled = st\<lparr>error :=
          ''Please enter a valid arXiv URL (e.g., https://arxiv.org/abs/1234.56789)'',
          paperData := None\<rparr>,
        effects = []\<rparr>"
  by (simp add: handleSubmit_def)

lemma handleSubmit_rejects:
  "trim (url st) \<noteq> '''' \<Longrightarrow> validateArxivUrl (url st) \<Longrightarrow>
   callAIAgent ((''Summarize this arXiv paper: '' @ extractArxivId (url st))) agent_id = Rejects \<Longrightarrow>
     handleSubmit parse callAIAgent st =
       \<lparr>pending = Some (st\<lparr>error := '''', paperData := None, loading := True\<rparr>),
        settled = st\<lparr>error :=
          ''An error occurred while processing the paper. Please try again.'',
          paperData := None, loading := False\<rparr>,
        effects = [CallAgent ((''Summarize this arXiv paper: '' @ extractArxivId (url st))) agent_id]\<rparr>"
  by (simp add: handleSubmit_def Let_def)

lemma handleSubmit_resolves:
  "trim (url st) \<noteq> '''' \<Longrightarrow> validateArxivUrl (url st) \<Longrightarrow>
   callAIAgent ((''Summarize this arXiv paper: '' @ extractArxivId (url st))) agent_id = Resolves raw \<Longrightarrow>
     handleSubmit parse callAIAgent st =
       \<lparr>pending = Some (st\<lparr>error := '''', paperData := None, loading := True\<rparr>),
        settled = (fst (classify (parseLLMJson parse raw parse_fallback)
                     (st\<lparr>error := '''', paperData := None, loading := True\<rparr>)))
                  \<lparr>loading := False\<rparr>,
        effects = CallAgent ((''Summarize this arXiv paper: '' @ extractArxivId (url st))) agent_id #
                  snd (classify (parseLLMJson parse raw parse_fallback)
                     (st\<lparr>error := '''', paperData := None, loading := True\<rparr>))\<rparr>"
  by (simp add: handleSubmit_def Let_def case_prod_beta)

lemma classify_success:
  "success result \<Longrightarrow> metadata (data result) = Some m \<Longrightarrow> summary (data result) = Some s \<Longrightarrow>
   s \<noteq> '''' \<Longrightarrow>
     classify result st = (st\<lparr>paperData := Some (m, s)\<rparr>,
                           [ToastSuccess ''Paper summarized successfully''])"
  by (simp add: classify_def truthy_obj_def truthy_str_def)

lemma classify_failure:
  "\<not> (success result \<and> metadata (data result) \<noteq> None
       \<and> (\<exists>s. summary (data result) = Some s \<and> s \<noteq> '''')) \<Longrightarrow>
     classify result st = (st\<lparr>error := js_or (SummaryData.error (data result)) ''Failed to summarize paper''\<rparr>, [])"
  by (auto simp: classify_def truthy_obj_def truthy_str_def js_or_def
      split: option.splits)

lemma js_or_nonempty: "d \<noteq> '''' \<Longrightarrow> js_or x d \<noteq> ''''"
  by (simp add: js_or_def split: option.splits)

lemma classify_cases:
  "(\<exists>m s. success result \<and> metadata (data result) = Some m \<and> summary (data result) = Some s
       \<and> s \<noteq> '''' \<and> classify result st = (st\<lparr>paperData := Some (m, s)\<rparr>,
                           [ToastSuccess ''Paper summarized successfully'']))
   \<or> (\<not> (success result \<and> metadata (data result) \<noteq> None
       \<and> (\<exists>s. summary (data result) = Some s \<and> s \<noteq> ''''))
       \<and> classify result st = (st\<lparr>error := js_or (SummaryData.error (data result)) ''Failed to summarize paper''\<rparr>, []))"
proof (cases "success result \<and> metadata (data result) \<noteq> None
       \<and> (\<exists>s. summary (data result) = Some s \<and> s \<noteq> '''')")
  case True
  then obtain m s where "success result" "metadata (data result) = Some m"
    "summary (data result) = Some s" "s \<noteq> ''''" by auto
  with classify_success[OF this, of st] show ?thesis by blast
next
  case False
  with classify_failure[OF False, of st] show ?thesis by blast
qed

lemma is_digit_not_space: "is_digit c \<Longrightarrow> \<not> is_space c"
  by (auto simp: is_digit_def is_space_def)

lemma spec_is_identifier_digit: "spec_is_identifier x \<Longrightarrow> \<exists>c \<in> set x. is_digit c"
proof -
  assume "spec_is_identifier x"
  then obtain i where "is_digits (take i x)" unfolding spec_is_identifier_def by blast
  then obtain c where "c \<in> set (take i x)" "is_digit c"
    unfolding is_digits_def by (cases "take i x") auto
  then show ?thesis using set_take_subset[of i x] by blast
qed

lemma valid_not_blank: "validateArxivUrl s \<Longrightarrow> trim s \<noteq> ''''"
proof -
  assume "validateArxivUrl s"
  from extractArxivId_match[OF this] obtain pre p post where
    s: "s = pre @ p @ extractArxivId s @ post" and i: "spec_is_identifier (extractArxivId s)"
    by (elim exE conjE)
  from spec_is_identifier_digit[OF i] obtain c where
    c: "c \<in> set (extractArxivId s)" "is_digit c" by blast
  from c(1) have "c \<in> set (pre @ p @ extractArxivId s @ post)" by simp
  with s have "c \<in> set s" by simp
  with c(2) show ?thesis unfolding trim_empty_iff using is_digit_not_space by blast
qed

lemma network_calls_simps:
  "network_calls \<lparr>pending = p, settled = s, effects = []\<rparr> = []"
  "network_calls \<lparr>pending = p, settled = s, effects = [CallAgent m a]\<rparr> = [(m, a)]"
  "network_calls \<lparr>pending = p, settled = s,
      effects = [CallAgent m a, ToastSuccess t]\<rparr> = [(m, a)]"
  by (simp_all add: network_calls_def)

lemma handleSubmit_valid:
  assumes v: "validateArxivUrl (url st)"
  shows "pending (handleSubmit parse callAIAgent st) =
           Some (st\<lparr>error := '''', paperData := None, loading := True\<rparr>)"
    and "network_calls (handleSubmit parse callAIAgent st) =
           [(''Summarize this arXiv paper: '' @ extractArxivId (url st), agent_id)]"
    and "\<not> loading (settled (handleSubmit parse callAIAgent st))"
    and "url (settled (handleSubmit parse callAIAgent st)) = url st"
proof -
  note t = valid_not_blank[OF v]
  let ?st1 = "st\<lparr>error := '''', paperData := None, loading := True\<rparr>"
  show "pending (handleSubmit parse callAIAgent st) = Some ?st1"
    using t v by (simp add: handleSubmit_def Let_def case_prod_beta split: agent_result.splits)
  show "network_calls (handleSubmit parse callAIAgent st) =
           [(''Summarize this arXiv paper: '' @ extractArxivId (url st), agent_id)]"
  proof (cases "callAIAgent (''Summarize this arXiv paper: '' @ extractArxivId (url st)) agent_id")
    case Rejects
    from handleSubmit_rejects[where callAIAgent = callAIAgent and parse = parse, OF t v Rejects] show ?thesis
      by (simp add: network_calls_simps)
  next
    case (Resolves raw)
    from classify_cases[of "parseLLMJson parse raw parse_fallback" ?st1]
      handleSubmit_resolves[where callAIAgent = callAIAgent and parse = parse, OF t v Resolves]
    show ?thesis by (auto simp: network_calls_simps)
  qed
  show "\<not> loading (settled (handleSubmit parse callAIAgent st))"
    using t v by (simp add: handleSubmit_def Let_def case_prod_beta split: agent_result.splits)
  show "url (settled (handleSubmit parse callAIAgent st)) = url st"
  proof (cases "callAIAgent (''Summarize this arXiv paper: '' @ extractArxivId (url st)) agent_id")
    case Rejects
    from handleSubmit_rejects[where callAIAgent = callAIAgent and parse = parse, OF t v Rejects] show ?thesis by simp
  next
    case (Resolves raw)
    from classify_cases[of "parseLLMJson parse raw parse_fallback" ?st1]
      handleSubmit_resolves[where callAIAgent = callAIAgent and parse = parse, OF t v Resolves]
    show ?thesis by auto
  qed
qed

lemma handleSubmit_success:
  assumes v: "validateArxivUrl (url st)"
    and a: "callAIAgent (''Summarize this arXiv paper: '' @ extractArxivId (url st)) agent_id
              = Resolves raw"
    and r: "parseLLMJson parse raw parse_fallback = result"
    and ok: "success result" "metadata (data result) = Some m" "summary (data result) = Some s"
      "s \<noteq> ''''"
  shows "settled (handleSubmit parse callAIAgent st) =
           st\<lparr>error := '''', paperData := Some (m, s), loading := False\<rparr>"
    and "effects (handleSubmit parse callAIAgent st) =
           [CallAgent (''Summarize this arXiv paper: '' @ extractArxivId (url st)) agent_id,
            ToastSuccess ''Paper summarized successfully'']"
  using handleSubmit_resolves[where callAIAgent = callAIAgent and parse = parse,
      OF valid_not_blank[OF v] v a]
    classify_success[OF ok, of "st\<lparr>error := '''', paperData := None, loading := True\<rparr>"] r
  by simp_all

lemma handleSubmit_failure:
  assumes v: "validateArxivUrl (url st)"
    and a: "callAIAgent (''Summarize this arXiv paper: '' @ extractArxivId (url st)) agent_id
              = Resolves raw"
    and r: "parseLLMJson parse raw parse_fallback = result"
    and no: "\<not> (success result \<and> metadata (data result) \<noteq> None
               \<and> (\<exists>s. summary (data result) = Some s \<and> s \<noteq> ''''))"
  shows "settled (handleSubmit parse callAIAgent st) =
           st\<lparr>error := js_or (SummaryData.error (data result)) ''Failed to summarize paper'',
              paperData := None, loading := False\<rparr>"
    and "effects (handleSubmit parse callAIAgent st) =
           [CallAgent (''Summarize this arXiv paper: '' @ extractArxivId (url st)) agent_id]"
  using handleSubmit_resolves[where callAIAgent = callAIAgent and parse = parse,
      OF valid_not_blank[OF v] v a]
    classify_failure[OF no, of "st\<lparr>error := '''', paperData := None, loading := True\<rparr>"] r
  by simp_all

lemma request_state_simps:
  "request_state (st\<lparr>error := e, paperData := Some (m, s), loading := False\<rparr>) = Succeeded m s"
  "e \<noteq> '''' \<Longrightarrow> request_state (st\<lparr>error := e, paperData := None, loading := False\<rparr>) = Failed e"
  "request_state (st\<lparr>error := e, paperData := pd, loading := True\<rparr>) = Loading"
  "\<not> loading st \<Longrightarrow> e \<noteq> '''' \<Longrightarrow>
     request_state (st\<lparr>error := e, paperData := None\<rparr>) = Failed e"
  by (simp_all add: request_state_def)

lemma reachable_summary_nonempty:
  "st \<in> reachable parse \<Longrightarrow> paperData st = Some (m, s) \<Longrightarrow> s \<noteq> ''''"
proof (induction arbitrary: m s rule: reachable.induct)
  case reach_init
  then show ?case by (simp add: initial_state_def)
next
  case (reach_setUrl st u)
  then show ?case by (simp add: setUrl_def)
next
  case (reach_pending st callAIAgent p)
  from reach_pending.hyps(2) reach_pending.prems show ?case
    by (auto simp: handleSubmit_def Let_def case_prod_beta split: if_splits agent_result.splits)
next
  case (reach_settled st callAIAgent)
  let ?st1 = "st\<lparr>error := '''', paperData := None, loading := True\<rparr>"
  show ?case
  proof (cases "validateArxivUrl (url st)")
    case False
    with reach_settled.prems show ?thesis
      by (cases "trim (url st) = ''''") (simp_all add: handleSubmit_blank handleSubmit_invalid)
  next
    case True
    note t = valid_not_blank[OF True]
    show ?thesis
    proof (cases "callAIAgent (''Summarize this arXiv paper: '' @ extractArxivId (url st)) agent_id")
      case Rejects
      from handleSubmit_rejects[where callAIAgent = callAIAgent and parse = parse, OF t True Rejects]
        reach_settled.prems show ?thesis by simp
    next
      case (Resolves raw)
      from classify_cases[of "parseLLMJson parse raw parse_fallback" ?st1]
        handleSubmit_resolves[where callAIAgent = callAIAgent and parse = parse, OF t True Resolves]
        reach_settled.prems
      show ?thesis by auto
    qed
  qed
qed

lemma settled_succeeded:
  assumes "paperData (settled (handleSubmit parse callAIAgent st)) = Some (m, s)"
  shows "validateArxivUrl (url st) \<and> (\<exists>raw.
           callAIAgent (''Summarize this arXiv paper: '' @ extractArxivId (url st)) agent_id
             = Resolves raw
           \<and> success (parseLLMJson parse raw parse_fallback)
           \<and> metadata (data (parseLLMJson parse raw parse_fallback)) = Some m
           \<and> summary (data (parseLLMJson parse raw parse_fallback)) = Some s \<and> s \<noteq> '''')"
proof (cases "validateArxivUrl (url st)")
  case False
  with assms show ?thesis
    by (cases "trim (url st) = ''''") (simp_all add: handleSubmit_blank handleSubmit_invalid)
next
  case True
  note t = valid_not_blank[OF True]
  let ?st1 = "st\<lparr>error := '''', paperData := None, loading := True\<rparr>"
  show ?thesis
  proof (cases "callAIAgent (''Summarize this arXiv paper: '' @ extractArxivId (url st)) agent_id")
    case Rejects
    from handleSubmit_rejects[where callAIAgent = callAIAgent and parse = parse, OF t True Rejects]
      assms show ?thesis by simp
  next
    case (Resolves raw)
    from classify_cases[of "parseLLMJson parse raw parse_fallback" ?st1]
      handleSubmit_resolves[where callAIAgent = callAIAgent and parse = parse, OF t True Resolves]
      assms True Resolves
    show ?thesis by auto
  qed
qed

lemma request_state_Succeeded:
  "request_state st = Succeeded m s \<Longrightarrow> paperData st = Some (m, s)"
  by (auto simp: request_state_def split: if_splits option.splits)

lemma settled_valid_cases:
  assumes v: "validateArxivUrl (url st)"
  shows "\<exists>e pd. (pd \<noteq> None \<or> e \<noteq> '''')
           \<and> (\<forall>st'. url st' = url st \<longrightarrow>
                 settled (handleSubmit parse callAIAgent st') =
                   \<lparr>url = url st, loading = False, error = e, paperData = pd\<rparr>)"
proof -
  have valid: "validateArxivUrl (url st')" "trim (url st') \<noteq> ''''" if "url st' = url st" for st'
    using that v valid_not_blank[OF v] by simp_all
  show ?thesis
  proof (cases "callAIAgent (''Summarize this arXiv paper: '' @ extractArxivId (url st)) agent_id")
    case Rejects
    have "settled (handleSubmit parse callAIAgent st') =
            \<lparr>url = url st, loading = False,
             error = ''An error occurred while processing the paper. Please try again.'',
             paperData = None\<rparr>" if u: "url st' = url st" for st'
    proof -
      from Rejects u have r: "callAIAgent (''Summarize this arXiv paper: '' @
          extractArxivId (url st')) agent_id = Rejects" by simp
      from handleSubmit_rejects[where callAIAgent = callAIAgent and parse = parse,
          OF valid(2)[OF u] valid(1)[OF u] r] u
      show ?thesis by simp
    qed
    then show ?thesis by blast
  next
    case (Resolves raw)
    let ?result = "parseLLMJson parse raw parse_fallback"
    show ?thesis
    proof (cases "success ?result \<and> metadata (data ?result) \<noteq> None
               \<and> (\<exists>s. summary (data ?result) = Some s \<and> s \<noteq> '''')")
      case True
      then obtain m s where ok: "success ?result" "metadata (data ?result) = Some m"
        "summary (data ?result) = Some s" "s \<noteq> ''''" by auto
      have "settled (handleSubmit parse callAIAgent st') =
              \<lparr>url = url st, loading = False, error = '''', paperData = Some (m, s)\<rparr>"
        if u: "url st' = url st" for st'
      proof -
        from Resolves u have r: "callAIAgent (''Summarize this arXiv paper: '' @
            extractArxivId (url st')) agent_id = Resolves raw" by simp
        from handleSubmit_success(1)[where callAIAgent = callAIAgent and parse = parse,
            OF valid(1)[OF u] r refl ok] u
        show ?thesis by simp
      qed
      then show ?thesis by blast
    next
      case False
      have ne: "js_or (SummaryData.error (data ?result)) ''Failed to summarize paper'' \<noteq> ''''"
        by (rule js_or_nonempty) simp
      have "settled (handleSubmit parse callAIAgent st') =
              \<lparr>url = url st, loading = False,
               error = js_or (SummaryData.error (data ?result)) ''Failed to summarize paper'',
               paperData = None\<rparr>"
        if u: "url st' = url st" for st'
      proof -
        from Resolves u have r: "callAIAgent (''Summarize this arXiv paper: '' @
            extractArxivId (url st')) agent_id = Resolves raw" by simp
        from handleSubmit_failure(1)[where callAIAgent = callAIAgent and parse = parse,
            OF valid(1)[OF u] r refl False] u
        show ?thesis by simp
      qed
      with ne show ?thesis by blast
    qed
  qed
qed

section \<open>The claims\<close>

text \<open>
  C1 (amended). If the parsed result signals success, its metadata is present and its
  summary is present and is not the empty string, \<open>handleSubmit\<close> finishes in the state
  \<open>Succeeded\<close> with exactly that metadata and that summary. Conversely, when a submission
  finishes in \<open>Succeeded m s\<close>, the call resolved and the parsed result signals success and
  has the metadata \<open>m\<close> and the non-empty summary \<open>s\<close>; and in every reachable state that
  is \<open>Succeeded m s\<close> the summary \<open>s\<close> is not empty. The fields of the metadata are not
  inspected.
\<close>

theorem submit_succeeded:
  "(validateArxivUrl (url st)
      \<and> callAIAgent (''Summarize this arXiv paper: '' @ extractArxivId (url st)) agent_id
          = Resolves raw
      \<and> parseLLMJson parse raw parse_fallback = result
      \<and> success result \<and> metadata (data result) = Some m \<and> summary (data result) = Some s
      \<and> s \<noteq> ''''
    \<longrightarrow> request_state (settled (handleSubmit parse callAIAgent st)) = Succeeded m s)
   \<and> (request_state (settled (handleSubmit parse callAIAgent st)) = Succeeded m' s'
    \<longrightarrow> (\<exists>raw'. callAIAgent (''Summarize this arXiv paper: '' @ extractArxivId (url st)) agent_id
             = Resolves raw'
           \<and> success (parseLLMJson parse raw' parse_fallback)
           \<and> metadata (data (parseLLMJson parse raw' parse_fallback)) = Some m'
           \<and> summary (data (parseLLMJson parse raw' parse_fallback)) = Some s' \<and> s' \<noteq> ''''))
   \<and> (st' \<in> reachable parse \<and> request_state st' = Succeeded m'' s'' \<longrightarrow> s'' \<noteq> '''')"
proof (intro conjI impI)
  assume a: "validateArxivUrl (url st)
      \<and> callAIAgent (''Summarize this arXiv paper: '' @ extractArxivId (url st)) agent_id
          = Resolves raw
      \<and> parseLLMJson parse raw parse_fallback = result
      \<and> success result \<and> metadata (data result) = Some m \<and> summary (data result) = Some s
      \<and> s \<noteq> ''''"
  then have "settled (handleSubmit parse callAIAgent st) =
           st\<lparr>error := '''', paperData := Some (m, s), loading := False\<rparr>"
    by (intro handleSubmit_success(1)[where raw = raw and result = result]) simp_all
  then show "request_state (settled (handleSubmit parse callAIAgent st)) = Succeeded m s"
    by (simp add: request_state_simps)
next
  assume "request_state (settled (handleSubmit parse callAIAgent st)) = Succeeded m' s'"
  then have "paperData (settled (handleSubmit parse callAIAgent st)) = Some (m', s')"
    by (rule request_state_Succeeded)
  from settled_succeeded[OF this]
  show "\<exists>raw'. callAIAgent (''Summarize this arXiv paper: '' @ extractArxivId (url st)) agent_id
             = Resolves raw'
           \<and> success (parseLLMJson parse raw' parse_fallback)
           \<and> metadata (data (parseLLMJson parse raw' parse_fallback)) = Some m'
           \<and> summary (data (parseLLMJson parse raw' parse_fallback)) = Some s' \<and> s' \<noteq> ''''"
    by (elim conjE)
next
  assume "st' \<in> reachable parse \<and> request_state st' = Succeeded m'' s''"
  then have "st' \<in> reachable parse" "paperData st' = Some (m'', s'')"
    by (simp_all add: request_state_Succeeded)
  then show "s'' \<noteq> ''''" by (rule reachable_summary_nonempty)
qed

theorem submit_succeeded_witness:
  "validateArxivUrl (url (sample_state ''https://arxiv.org/abs/1234.56789''))
   \<and> request_state (settled (handleSubmit
         (parse_to (sample_response True (Some sample_metadata) (Some ''X'') None))
         (agent_resolves ''{}'') (sample_state ''https://arxiv.org/abs/1234.56789'')))
       = Succeeded sample_metadata ''X''
   \<and> settled (handleSubmit
         (parse_to (sample_response True (Some sample_metadata) (Some ''X'') None))
         (agent_resolves ''{}'') (sample_state ''https://arxiv.org/abs/1234.56789''))
       \<in> reachable (parse_to (sample_response True (Some sample_metadata) (Some ''X'') None))
   \<and> (\<exists>raw. agent_resolves ''{}''
           (''Summarize this arXiv paper: '' @
            extractArxivId (url (sample_state ''https://arxiv.org/abs/1234.56789''))) agent_id
           = Resolves raw
         \<and> summary (data (parseLLMJson
             (parse_to (sample_response True (Some sample_metadata) (Some ''X'') None))
             raw parse_fallback)) = Some ''X'')
   \<and> ''X'' \<noteq> ''''"
proof -
  let ?parse = "parse_to (sample_response True (Some sample_metadata) (Some ''X'') None)"
  let ?agent = "agent_resolves ''{}''"
  let ?st = "sample_state ''https://arxiv.org/abs/1234.56789''"
  let ?result = "sample_response True (Some sample_metadata) (Some ''X'') None"
  have v: "validateArxivUrl (url ?st)" by code_simp
  have a: "?agent (''Summarize this arXiv paper: '' @ extractArxivId (url ?st)) agent_id
             = Resolves ''{}''" by simp
  have p: "parseLLMJson ?parse ''{}'' parse_fallback = ?result" by (simp add: parseLLMJson_def)
  have ok: "success ?result" "metadata (data ?result) = Some sample_metadata"
    "summary (data ?result) = Some ''X''" "''X'' \<noteq> ''''"
    by (simp_all add: sample_response_def)
  have r: "settled (handleSubmit ?parse ?agent ?st) \<in> reachable ?parse"
    unfolding sample_state_def
    by (intro reachable.reach_settled reachable.reach_setUrl reachable.reach_init)
  from submit_succeeded[where st = ?st and callAIAgent = ?agent and parse = ?parse
      and raw = "''{}''" and result = ?result and m = sample_metadata and s = "''X''"
      and st' = "settled (handleSubmit ?parse ?agent ?st)" and m'' = sample_metadata
      and s'' = "''X''" and m' = sample_metadata and s' = "''X''"] v a p ok r
  show ?thesis by blast
qed

text \<open>
  The claim as written asks only for a summary that is present. A present but empty
  summary is falsy, and the submission fails.
\<close>

theorem submit_succeeded_counterexample:
  "success (sample_response True (Some sample_metadata) (Some '''') None)
   \<and> metadata (data (sample_response True (Some sample_metadata) (Some '''') None))
       = Some sample_metadata
   \<and> summary (data (sample_response True (Some sample_metadata) (Some '''') None)) = Some ''''
   \<and> request_state (settled (handleSubmit
         (parse_to (sample_response True (Some sample_metadata) (Some '''') None))
         (agent_resolves ''{}'') (sample_state ''https://arxiv.org/abs/1234.56789'')))
       = Failed ''Failed to summarize paper''"
  by code_simp

text \<open>
  C2 (amended). If the parsed result does not have success, metadata and summary all
  together, \<open>handleSubmit\<close> finishes in \<open>Failed\<close> with the parsed error message when that
  is present and not the empty string, and with \<open>Failed to summarize paper\<close> otherwise. An
  unparseable payload makes the parser return the fallback value, and the state is
  \<open>Failed\<close> with \<open>Failed to parse response\<close>.
\<close>

theorem submit_failed:
  assumes "validateArxivUrl (url st)"
    and "callAIAgent (''Summarize this arXiv paper: '' @ extractArxivId (url st)) agent_id
           = Resolves raw"
    and "parseLLMJson parse raw parse_fallback = result"
  shows "(\<not> (success result \<and> metadata (data result) \<noteq> None \<and> summary (data result) \<noteq> None)
            \<longrightarrow> request_state (settled (handleSubmit parse callAIAgent st)) =
                  Failed (case SummaryData.error (data result) of
                            None \<Rightarrow> ''Failed to summarize paper''
                          | Some e \<Rightarrow> if e \<noteq> '''' then e else ''Failed to summarize paper''))
         \<and> (parse raw = None
            \<longrightarrow> result = parse_fallback
                \<and> request_state (settled (handleSubmit parse callAIAgent st)) =
                    Failed ''Failed to parse response'')"
proof (rule conjI; rule impI)
  assume no: "\<not> (success result \<and> metadata (data result) \<noteq> None
                  \<and> summary (data result) \<noteq> None)"
  then have no': "\<not> (success result \<and> metadata (data result) \<noteq> None
               \<and> (\<exists>s. summary (data result) = Some s \<and> s \<noteq> ''''))" by auto
  have ne: "js_or (SummaryData.error (data result)) ''Failed to summarize paper'' \<noteq> ''''"
    by (rule js_or_nonempty) simp
  from handleSubmit_failure(1)[where callAIAgent = callAIAgent and parse = parse, OF assms no'] ne
  have "request_state (settled (handleSubmit parse callAIAgent st)) =
          Failed (js_or (SummaryData.error (data result)) ''Failed to summarize paper'')"
    by (simp add: request_state_simps)
  then show "request_state (settled (handleSubmit parse callAIAgent st)) =
                  Failed (case SummaryData.error (data result) of
                            None \<Rightarrow> ''Failed to summarize paper''
                          | Some e \<Rightarrow> if e \<noteq> '''' then e else ''Failed to summarize paper'')"
    by (simp add: js_or_def)
next
  assume n: "parse raw = None"
  with assms(3) have r: "result = parse_fallback" by (simp add: parseLLMJson_def)
  then have no': "\<not> (success result \<and> metadata (data result) \<noteq> None
               \<and> (\<exists>s. summary (data result) = Some s \<and> s \<noteq> ''''))"
    by (simp add: parse_fallback_def)
  from r have e: "js_or (SummaryData.error (data result)) ''Failed to summarize paper''
                    = ''Failed to parse response''"
    by (simp add: parse_fallback_def js_or_def)
  from handleSubmit_failure(1)[where callAIAgent = callAIAgent and parse = parse, OF assms no'] e
  have "request_state (settled (handleSubmit parse callAIAgent st)) =
          Failed ''Failed to parse response''"
    by (simp add: request_state_simps)
  with r show "result = parse_fallback
                \<and> request_state (settled (handleSubmit parse callAIAgent st)) =
                    Failed ''Failed to parse response''" by simp
qed

theorem submit_failed_witness:
  "validateArxivUrl (url (sample_state ''https://arxiv.org/abs/1234.56789''))
   \<and> request_state (settled (handleSubmit parse_fails (agent_resolves ''not json'')
         (sample_state ''https://arxiv.org/abs/1234.56789'')))
       = Failed ''Failed to parse response''
   \<and> request_state (settled (handleSubmit
         (parse_to (sample_response True None None None)) (agent_resolves ''{}'')
         (sample_state ''https://arxiv.org/abs/1234.56789'')))
       = Failed ''Failed to summarize paper''
   \<and> request_state (settled (handleSubmit
         (parse_to (sample_response False None None (Some ''no such paper'')))
         (agent_resolves ''{}'') (sample_state ''https://arxiv.org/abs/1234.56789'')))
       = Failed ''no such paper''"
proof -
  let ?st = "sample_state ''https://arxiv.org/abs/1234.56789''"
  let ?agent = "agent_resolves"
  have v: "validateArxivUrl (url ?st)" by code_simp
  have 1: "request_state (settled (handleSubmit parse_fails (?agent ''not json'') ?st))
       = Failed ''Failed to parse response''"
    using submit_failed[where st = ?st and callAIAgent = "?agent ''not json''"
        and parse = parse_fails and raw = "''not json''" and result = parse_fallback, OF v]
    by (simp add: parseLLMJson_def)
  have 2: "request_state (settled (handleSubmit
         (parse_to (sample_response True None None None)) (?agent ''{}'') ?st))
       = Failed ''Failed to summarize paper''"
    using submit_failed[where st = ?st and callAIAgent = "?agent ''{}''"
        and parse = "parse_to (sample_response True None None None)" and raw = "''{}''"
        and result = "sample_response True None None None", OF v]
    by (simp add: parseLLMJson_def sample_response_def)
  have 3: "request_state (settled (handleSubmit
         (parse_to (sample_response False None None (Some ''no such paper''))) (?agent ''{}'') ?st))
       = Failed ''no such paper''"
    using submit_failed[where st = ?st and callAIAgent = "?agent ''{}''"
        and parse = "parse_to (sample_response False None None (Some ''no such paper''))"
        and raw = "''{}''"
        and result = "sample_response False None None (Some ''no such paper'')", OF v]
    by (simp add: parseLLMJson_def sample_response_def)
  from v 1 2 3 show ?thesis by simp
qed

text \<open>
  The claim as written uses the parsed error message whenever it is present. A present
  but empty message is falsy, and the generic message is used.
\<close>

theorem submit_failed_counterexample:
  "\<not> success (sample_response False None None (Some ''''))
   \<and> SummaryData.error (data (sample_response False None None (Some ''''))) = Some ''''
   \<and> request_state (settled (handleSubmit
         (parse_to (sample_response False None None (Some '''')))
         (agent_resolves ''{}'') (sample_state ''https://arxiv.org/abs/1234.56789'')))
       = Failed ''Failed to summarize paper''
   \<and> request_state (settled (handleSubmit
         (parse_to (sample_response False None None (Some '''')))
         (agent_resolves ''{}'') (sample_state ''https://arxiv.org/abs/1234.56789'')))
       \<noteq> Failed ''''"
  by code_simp

text \<open>
  C3. For an input that is not empty after trimming and passes validation, \<open>handleSubmit\<close>
  awaits the remote call in the state \<open>Loading\<close>, with the previous error and result
  cleared, and it makes exactly one remote call, with the prompt
  \<open>Summarize this arXiv paper: <id>\<close> and the fixed service identifier.
\<close>

theorem submit_valid_calls_once:
  assumes "trim (url st) \<noteq> ''''" and "validateArxivUrl (url st)"
  shows "pending (handleSubmit parse callAIAgent st) =
           Some (st\<lparr>error := '''', paperData := None, loading := True\<rparr>)
       \<and> request_state (st\<lparr>error := '''', paperData := None, loading := True\<rparr>) = Loading
       \<and> network_calls (handleSubmit parse callAIAgent st) =
           [(''Summarize this arXiv paper: '' @ extractArxivId (url st),
             ''68f24d4e811f17edf77d460e'')]"
  using handleSubmit_valid(1,2)[OF assms(2), of parse callAIAgent]
  by (simp add: request_state_simps agent_id_def)

theorem submit_valid_calls_once_witness:
  "trim ''https://arxiv.org/abs/1234.56789'' \<noteq> ''''
   \<and> validateArxivUrl ''https://arxiv.org/abs/1234.56789''
   \<and> network_calls (handleSubmit parse_fails agent_rejects
         \<lparr>url = ''https://arxiv.org/abs/1234.56789'', loading = False, error = ''old error'',
          paperData = Some (sample_metadata, ''old summary'')\<rparr>)
       = [(''Summarize this arXiv paper: 1234.56789'', ''68f24d4e811f17edf77d460e'')]
   \<and> pending (handleSubmit parse_fails agent_rejects
         \<lparr>url = ''https://arxiv.org/abs/1234.56789'', loading = False, error = ''old error'',
          paperData = Some (sample_metadata, ''old summary'')\<rparr>)
       = Some \<lparr>url = ''https://arxiv.org/abs/1234.56789'', loading = True, error = '''',
               paperData = None\<rparr>"
proof -
  let ?u = "''https://arxiv.org/abs/1234.56789''"
  let ?st = "\<lparr>url = ?u, loading = False, error = ''old error'',
          paperData = Some (sample_metadata, ''old summary'')\<rparr>"
  have t: "trim ?u \<noteq> ''''" by code_simp
  have v: "validateArxivUrl ?u" by code_simp
  have e: "extractArxivId ?u = ''1234.56789''" by code_simp
  from submit_valid_calls_once[of ?st parse_fails agent_rejects] t v e
  show ?thesis by simp
qed

text \<open>
  C4. A run of \<open>handleSubmit\<close> that enters \<open>Loading\<close> has left it when it finishes,
  whether the call resolved to a success, resolved to a failure, or raised; and a run that
  starts in a state that is not \<open>Loading\<close> never finishes in \<open>Loading\<close>, whatever the
  input. (The remote call either resolves or rejects; a call that never settles is not a
  run.)
\<close>

theorem loading_cleared:
  "(\<forall>p. pending (handleSubmit parse callAIAgent st) = Some p \<longrightarrow>
        request_state p = Loading
        \<and> request_state (settled (handleSubmit parse callAIAgent st)) \<noteq> Loading)
   \<and> (request_state st \<noteq> Loading \<longrightarrow>
        request_state (settled (handleSubmit parse callAIAgent st)) \<noteq> Loading)"
proof (cases "validateArxivUrl (url st)")
  case True
  from handleSubmit_valid(1,3)[OF True, of parse callAIAgent]
  show ?thesis by (auto simp: request_state_def split: option.splits)
next
  case False
  then show ?thesis
    by (cases "trim (url st) = ''''")
       (auto simp: handleSubmit_blank handleSubmit_invalid request_state_def
             split: option.splits if_splits)
qed

theorem loading_cleared_witness:
  "pending (handleSubmit parse_fails agent_rejects (sample_state ''arxiv.org/abs/1'')) =
     Some \<lparr>url = ''arxiv.org/abs/1'', loading = True, error = '''', paperData = None\<rparr>
   \<and> request_state \<lparr>url = ''arxiv.org/abs/1'', loading = True, error = '''', paperData = None\<rparr>
       = Loading
   \<and> request_state (sample_state ''arxiv.org/abs/1'') \<noteq> Loading
   \<and> request_state (settled
         (handleSubmit parse_fails agent_rejects (sample_state ''arxiv.org/abs/1''))) \<noteq> Loading
   \<and> request_state (settled
         (handleSubmit parse_fails (agent_resolves ''not json'')
            (sample_state ''arxiv.org/abs/1''))) \<noteq> Loading
   \<and> request_state (settled
         (handleSubmit (parse_to (sample_response True (Some sample_metadata) (Some ''X'') None))
            (agent_resolves ''{}'') (sample_state ''arxiv.org/abs/1''))) \<noteq> Loading"
proof -
  let ?st = "sample_state ''arxiv.org/abs/1''"
  let ?p = "\<lparr>url = ''arxiv.org/abs/1'', loading = True, error = '''', paperData = None\<rparr>"
  have p1: "pending (handleSubmit parse_fails agent_rejects ?st) = Some ?p" by code_simp
  have p2: "pending (handleSubmit parse_fails (agent_resolves ''not json'') ?st) = Some ?p"
    by code_simp
  have p3: "pending (handleSubmit
      (parse_to (sample_response True (Some sample_metadata) (Some ''X'') None))
      (agent_resolves ''{}'') ?st) = Some ?p" by code_simp
  have i: "request_state ?st \<noteq> Loading" by code_simp
  from loading_cleared[of parse_fails agent_rejects ?st]
    loading_cleared[of parse_fails "agent_resolves ''not json''" ?st]
    loading_cleared[of "parse_to (sample_response True (Some sample_metadata) (Some ''X'') None)"
      "agent_resolves ''{}''" ?st] p1 p2 p3 i
  show ?thesis by blast
qed

text \<open>
  C5. For a valid input, if the remote call raises, \<open>handleSubmit\<close> finishes in \<open>Failed\<close>
  with the message \<open>An error occurred while processing the paper. Please try again.\<close>
\<close>

theorem submit_call_raises:
  assumes "trim (url st) \<noteq> ''''" and "validateArxivUrl (url st)"
    and "callAIAgent (''Summarize this arXiv paper: '' @ extractArxivId (url st)) agent_id
           = Rejects"
  shows "request_state (settled (handleSubmit parse callAIAgent st)) =
           Failed ''An error occurred while processing the paper. Please try again.''"
  using handleSubmit_rejects[where callAIAgent = callAIAgent and parse = parse, OF assms]
  by (simp add: request_state_simps)

theorem submit_call_raises_witness:
  "trim (url (sample_state ''www.arxiv.org/pdf/2101.00001v2'')) \<noteq> ''''
   \<and> validateArxivUrl (url (sample_state ''www.arxiv.org/pdf/2101.00001v2''))
   \<and> request_state (settled (handleSubmit parse_fails agent_rejects
         (sample_state ''www.arxiv.org/pdf/2101.00001v2''))) =
       Failed ''An error occurred while processing the paper. Please try again.''"
proof -
  let ?st = "sample_state ''www.arxiv.org/pdf/2101.00001v2''"
  have t: "trim (url ?st) \<noteq> ''''" by code_simp
  have v: "validateArxivUrl (url ?st)" by code_simp
  from submit_call_raises[where callAIAgent = agent_rejects and parse = parse_fails, OF t v] t v
  show ?thesis by simp
qed

text \<open>
  C6. For an input that is empty or consists of white space only, \<open>handleSubmit\<close> sets the
  error \<open>Please enter an arXiv URL\<close>, leaves no result and makes no remote call; started
  in a state that is not \<open>Loading\<close> it finishes in \<open>Failed\<close> with that message.
\<close>

theorem submit_blank_input:
  assumes "\<forall>c \<in> set (url st). is_space c"
  shows "error (settled (handleSubmit parse callAIAgent st)) = ''Please enter an arXiv URL''
       \<and> paperData (settled (handleSubmit parse callAIAgent st)) = None
       \<and> pending (handleSubmit parse callAIAgent st) = None
       \<and> network_calls (handleSubmit parse callAIAgent st) = []
       \<and> (\<not> loading st \<longrightarrow>
            request_state (settled (handleSubmit parse callAIAgent st)) =
              Failed ''Please enter an arXiv URL'')"
proof -
  from assms have "trim (url st) = ''''" by (simp only: trim_empty_iff)
  from handleSubmit_blank[OF this, of parse callAIAgent]
  show ?thesis by (simp add: network_calls_simps request_state_simps)
qed

theorem submit_blank_input_witness:
  "list_all is_space '''' \<and> list_all is_space ''   ''
   \<and> request_state (settled (handleSubmit parse_fails agent_rejects (sample_state ''''))) =
       Failed ''Please enter an arXiv URL''
   \<and> request_state (settled (handleSubmit parse_fails agent_rejects (sample_state ''   ''))) =
       Failed ''Please enter an arXiv URL''
   \<and> network_calls (handleSubmit parse_fails agent_rejects (sample_state '''')) = []
   \<and> network_calls (handleSubmit parse_fails agent_rejects (sample_state ''   '')) = []"
proof -
  have u: "url (sample_state u) = u" "\<not> loading (sample_state u)" for u
    by (simp_all add: sample_state_def setUrl_def initial_state_def)
  have h1: "\<forall>c \<in> set (url (sample_state '''')). is_space c" by (simp add: u)
  have h2: "\<forall>c \<in> set (url (sample_state ''   '')). is_space c"
    by (simp add: u is_space_def)
  from submit_blank_input[OF h1, of parse_fails agent_rejects]
    submit_blank_input[OF h2, of parse_fails agent_rejects] h1 h2
  show ?thesis by (simp add: u list_all_iff)
qed

text \<open>
  C7 (amended). For an input that is not empty after trimming and does not contain the
  shape, \<open>validateArxivUrl\<close> is false and \<open>handleSubmit\<close> sets the error
  \<open>Please enter a valid arXiv URL (e.g., https://arxiv.org/abs/1234.56789)\<close>, leaves no result
  and makes no remote call; started in a state that is not \<open>Loading\<close> it finishes in
  \<open>Failed\<close> with that message.
\<close>

theorem submit_invalid_url:
  assumes "trim (url st) \<noteq> ''''" and "\<not> spec_matches_shape (url st)"
  shows "\<not> validateArxivUrl (url st)
       \<and> error (settled (handleSubmit parse callAIAgent st)) =
           ''Please enter a valid arXiv URL (e.g., https://arxiv.org/abs/1234.56789)''
       \<and> paperData (settled (handleSubmit parse callAIAgent st)) = None
       \<and> pending (handleSubmit parse callAIAgent st) = None
       \<and> network_calls (handleSubmit parse callAIAgent st) = []
       \<and> (\<not> loading st \<longrightarrow>
            request_state (settled (handleSubmit parse callAIAgent st)) =
              Failed ''Please enter a valid arXiv URL (e.g., https://arxiv.org/abs/1234.56789)'')"
proof -
  from assms(2) have v: "\<not> validateArxivUrl (url st)" by (simp add: validateArxivUrl_iff)
  from handleSubmit_invalid[OF assms(1) v, of parse callAIAgent] v
  show ?thesis by (simp add: network_calls_simps request_state_simps)
qed

theorem submit_invalid_url_witness:
  "trim (url (sample_state ''1234.56789'')) \<noteq> ''''
   \<and> \<not> spec_matches_shape (url (sample_state ''1234.56789''))
   \<and> \<not> validateArxivUrl ''1234.56789''
   \<and> request_state (settled (handleSubmit parse_fails agent_rejects
         (sample_state ''1234.56789''))) =
       Failed ''Please enter a valid arXiv URL (e.g., https://arxiv.org/abs/1234.56789)''
   \<and> network_calls (handleSubmit parse_fails agent_rejects (sample_state ''1234.56789'')) = []"
proof -
  have u: "url (sample_state u) = u" "\<not> loading (sample_state u)" for u
    by (simp_all add: sample_state_def setUrl_def initial_state_def)
  have t: "trim (url (sample_state ''1234.56789'')) \<noteq> ''''" by code_simp
  have n: "\<not> spec_matches_shape (url (sample_state ''1234.56789''))" by code_simp
  from submit_invalid_url[OF t n, of parse_fails agent_rejects] t n
  show ?thesis by (simp add: u)
qed

text \<open>
  The claim as written covers every non-empty input without the shape. An input of white
  space only is non-empty and has no shape, but it is rejected by the first check, with
  the message for an empty input.
\<close>

theorem submit_invalid_url_counterexample:
  "'' '' \<noteq> '''' \<and> \<not> spec_matches_shape '' '' \<and> \<not> validateArxivUrl '' ''
   \<and> request_state (settled (handleSubmit parse_fails agent_rejects (sample_state '' ''))) =
       Failed ''Please enter an arXiv URL''
   \<and> request_state (settled (handleSubmit parse_fails agent_rejects (sample_state '' ''))) \<noteq>
       Failed ''Please enter a valid arXiv URL (e.g., https://arxiv.org/abs/1234.56789)''"
  by code_simp

text \<open>
  C8. For a string that contains the shape, \<open>extractArxivId\<close> returns the identifier of
  the first match: a non-empty identifier (digits, optionally a dot and digits, optionally
  \<open>v\<close> and digits) that stands in the string right after one of the shape's prefixes, at
  the first position where the shape begins, and that no longer identifier at that place
  extends. For a string that does not contain the shape it returns the empty string.
\<close>

theorem extractArxivId_spec:
  "(spec_matches_shape s \<longrightarrow>
      extractArxivId s \<noteq> '''' \<and> spec_is_identifier (extractArxivId s)
      \<and> (\<exists>pre p post. s = pre @ p @ extractArxivId s @ post \<and> p \<in> set shape_prefixes
            \<and> (\<forall>i < length pre. \<not> spec_shape_at (drop i s))
            \<and> (\<forall>post1 post2. post = post1 @ post2 \<and> post1 \<noteq> [] \<longrightarrow>
                  \<not> spec_is_identifier (extractArxivId s @ post1))))
   \<and> (\<not> spec_matches_shape s \<longrightarrow> extractArxivId s = '''')"
proof (cases "validateArxivUrl s")
  case True
  have e: "\<exists>pre p post. s = pre @ p @ extractArxivId s @ post \<and> p \<in> set shape_prefixes
            \<and> (\<forall>i < length pre. \<not> spec_shape_at (drop i s))
            \<and> (\<forall>post1 post2. post = post1 @ post2 \<and> post1 \<noteq> [] \<longrightarrow>
                  \<not> spec_is_identifier (extractArxivId s @ post1))"
    using extractArxivId_match[OF True] by (elim exE conjE) (intro exI conjI)
  have i: "spec_is_identifier (extractArxivId s)"
    using extractArxivId_match[OF True] by (elim exE conjE)
  from i have n: "extractArxivId s \<noteq> ''''" by (rule spec_is_identifier_nonempty)
  from True have "spec_matches_shape s" by (simp add: validateArxivUrl_iff)
  with e i n show ?thesis by simp
next
  case False
  then have "\<not> spec_matches_shape s" by (simp add: validateArxivUrl_iff)
  with extractArxivId_no_match[OF False] show ?thesis by simp
qed

theorem extractArxivId_spec_witness:
  "spec_matches_shape ''arxiv.org/pdf/1.3v4x''
   \<and> extractArxivId ''arxiv.org/pdf/1.3v4x'' = ''1.3v4''
   \<and> spec_is_identifier (extractArxivId ''arxiv.org/pdf/1.3v4x'')
   \<and> \<not> spec_matches_shape ''abs/1'' \<and> extractArxivId ''abs/1'' = ''''"
proof -
  have h1: "spec_matches_shape ''arxiv.org/pdf/1.3v4x''" by code_simp
  have h2: "\<not> spec_matches_shape ''abs/1''" by code_simp
  have e: "extractArxivId ''arxiv.org/pdf/1.3v4x'' = ''1.3v4''" by code_simp
  from h1 h2 e extractArxivId_spec[of "''arxiv.org/pdf/1.3v4x''"]
    extractArxivId_spec[of "''abs/1''"]
  show ?thesis by blast
qed

text \<open>
  C9. For a valid URL and a fixed parser and remote call, submitting, waiting for the run
  to finish and submitting the same URL again finishes in the same state as the first
  run, which is \<open>Succeeded\<close> or \<open>Failed\<close>.
\<close>

theorem resubmit_same_outcome:
  assumes "validateArxivUrl (url st)"
  shows "request_state (settled (handleSubmit parse callAIAgent
            (settled (handleSubmit parse callAIAgent st)))) =
         request_state (settled (handleSubmit parse callAIAgent st))
       \<and> ((\<exists>m s. request_state (settled (handleSubmit parse callAIAgent st)) = Succeeded m s)
          \<or> (\<exists>msg. request_state (settled (handleSubmit parse callAIAgent st)) = Failed msg))"
proof -
  from settled_valid_cases[OF assms, of parse callAIAgent] obtain e pd where
    ne: "pd \<noteq> None \<or> e \<noteq> ''''"
    and eq: "\<And>st'. url st' = url st \<Longrightarrow> settled (handleSubmit parse callAIAgent st') =
                   \<lparr>url = url st, loading = False, error = e, paperData = pd\<rparr>"
    by blast
  have 1: "settled (handleSubmit parse callAIAgent st) =
             \<lparr>url = url st, loading = False, error = e, paperData = pd\<rparr>"
    by (rule eq) simp
  have 2: "settled (handleSubmit parse callAIAgent
              \<lparr>url = url st, loading = False, error = e, paperData = pd\<rparr>) =
             \<lparr>url = url st, loading = False, error = e, paperData = pd\<rparr>"
    by (rule eq) simp
  from ne have "(\<exists>m s. request_state \<lparr>url = url st, loading = False, error = e, paperData = pd\<rparr>
                   = Succeeded m s)
          \<or> (\<exists>msg. request_state \<lparr>url = url st, loading = False, error = e, paperData = pd\<rparr>
                   = Failed msg)"
    by (cases pd) (auto simp: request_state_def)
  with 1 2 show ?thesis by simp
qed

theorem resubmit_same_outcome_witness:
  "validateArxivUrl (url (sample_state ''https://arxiv.org/abs/1234.56789''))
   \<and> request_state (settled (handleSubmit
         (parse_to (sample_response True (Some sample_metadata) (Some ''X'') None))
         (agent_resolves ''{}'')
         (settled (handleSubmit
           (parse_to (sample_response True (Some sample_metadata) (Some ''X'') None))
           (agent_resolves ''{}'') (sample_state ''https://arxiv.org/abs/1234.56789'')))))
     = Succeeded sample_metadata ''X''
   \<and> request_state (settled (handleSubmit
           (parse_to (sample_response True (Some sample_metadata) (Some ''X'') None))
           (agent_resolves ''{}'') (sample_state ''https://arxiv.org/abs/1234.56789'')))
     = Succeeded sample_metadata ''X''"
proof -
  let ?parse = "parse_to (sample_response True (Some sample_metadata) (Some ''X'') None)"
  let ?agent = "agent_resolves ''{}''"
  let ?st = "sample_state ''https://arxiv.org/abs/1234.56789''"
  have v: "validateArxivUrl (url ?st)" by code_simp
  have f: "request_state (settled (handleSubmit ?parse ?agent ?st))
     = Succeeded sample_metadata ''X''" by code_simp
  from resubmit_same_outcome[OF v, of ?parse ?agent] v f show ?thesis by simp
qed

text \<open>
  C10. \<open>validateArxivUrl\<close> holds of a string exactly when \<open>extractArxivId\<close> returns a
  non-empty string for it.
\<close>

theorem validate_iff_extract_nonempty:
  "validateArxivUrl s \<longleftrightarrow> extractArxivId s \<noteq> ''''"
proof
  assume "validateArxivUrl s"
  from extractArxivId_match[OF this] have "spec_is_identifier (extractArxivId s)"
    by (elim exE conjE)
  then show "extractArxivId s \<noteq> ''''" by (rule spec_is_identifier_nonempty)
next
  assume "extractArxivId s \<noteq> ''''"
  with extractArxivId_no_match[of s] show "validateArxivUrl s" by blast
qed

end
